theory Spec2Isabelle
  imports Complex_Main
begin

section \<open>JavaScript numbers\<close>

text \<open>
  Audio energies, samples and thresholds are JavaScript numbers. They are modelled as
  real numbers: rounding of IEEE doubles is not modelled, and the inputs of the
  detector (a root-mean-square volume and the samples of a Float32Array) are finite.
  The one place of the detector where a divisor can be zero is the energy confidence
  of \<open>process\<close>, so the result of a division is a value of \<open>jsnum\<close>, which has
  JavaScript's infinities and NaN. A zero divisor is the positive zero (the sum of
  \<open>reduce\<close> starts at \<open>+0\<close>).
\<close>

datatype jsnum = Num real | PosInf | NegInf | NaN

fun js_div :: "jsnum \<Rightarrow> jsnum \<Rightarrow> jsnum" where
  "js_div NaN y = NaN"
| "js_div x NaN = NaN"
| "js_div (Num a) (Num b) =
     (if b \<noteq> 0 then Num (a / b)
      else if 0 < a then PosInf
      else if a < 0 then NegInf
      else NaN)"
| "js_div (Num a) y = Num 0"
| "js_div PosInf (Num b) = (if 0 \<le> b then PosInf else NegInf)"
| "js_div NegInf (Num b) = (if 0 \<le> b then NegInf else PosInf)"
| "js_div x y = NaN"

fun js_min :: "jsnum \<Rightarrow> jsnum \<Rightarrow> jsnum" where
  "js_min NaN y = NaN"
| "js_min x NaN = NaN"
| "js_min NegInf y = NegInf"
| "js_min x NegInf = NegInf"
| "js_min PosInf y = y"
| "js_min x PosInf = x"
| "js_min (Num a) (Num b) = Num (min a b)"

fun js_add :: "jsnum \<Rightarrow> jsnum \<Rightarrow> jsnum" where
  "js_add NaN y = NaN"
| "js_add x NaN = NaN"
| "js_add (Num a) (Num b) = Num (a + b)"
| "js_add PosInf NegInf = NaN"
| "js_add NegInf PosInf = NaN"
| "js_add PosInf y = PosInf"
| "js_add x PosInf = PosInf"
| "js_add NegInf y = NegInf"
| "js_add x NegInf = NegInf"

text \<open>\<open>xs.reduce((a, b) => a + b, 0)\<close>\<close>

definition js_sum :: "real list \<Rightarrow> real" where
  "js_sum xs = foldl (+) 0 xs"

section \<open>AdvancedVAD (src/src/App.tsx)\<close>

record vad =
  isSpeaking :: bool
  speechFrames :: nat
  silenceFrames :: nat
  energyThreshold :: real
  zcrThreshold :: real
  speechConfidence :: jsnum
  backgroundNoise :: real
  calibrationSamples :: "real list"
  isCalibrated :: bool
  energyHistory :: "real list"
  zcrHistory :: "real list"

definition historySize :: nat where "historySize = 5"
definition calibrationTarget :: nat where "calibrationTarget = 30"
definition speechStartThreshold :: nat where "speechStartThreshold = 2"
definition speechEndThreshold :: nat where "speechEndThreshold = 8"

text \<open>The field initialisers of the class: the state of a new detector.\<close>

definition new_vad :: vad where
  "new_vad = \<lparr> isSpeaking = False, speechFrames = 0, silenceFrames = 0,
     energyThreshold = 0.015, zcrThreshold = 0.3, speechConfidence = Num 0,
     backgroundNoise = 0, calibrationSamples = [], isCalibrated = False,
     energyHistory = [], zcrHistory = [] \<rparr>"

text \<open>The callbacks of the detector are modelled as the list of events a call emits.\<close>

datatype event = VolumeChange real | Confidence jsnum | SpeechStart | SpeechEnd

text \<open>\<open>calibrate(volume)\<close>: the returned boolean and the updated detector.\<close>

definition calibrate :: "real \<Rightarrow> vad \<Rightarrow> bool \<times> vad" where
  "calibrate volume s =
     (if length (calibrationSamples s) < calibrationTarget
      then (False, s\<lparr>calibrationSamples := calibrationSamples s @ [volume]\<rparr>)
      else if \<not> isCalibrated s
      then (let sum = js_sum (calibrationSamples s);
                bg = sum / real (length (calibrationSamples s))
            in (True, s\<lparr>backgroundNoise := bg, energyThreshold := bg * 3,
                          isCalibrated := True\<rparr>))
      else (True, s))"

text \<open>
  \<open>calculateZCR(samples)\<close>: the loop counts the indices \<open>i\<close> from 1 below the length
  with \<open>samples[i] * samples[i - 1] < 0\<close>.
\<close>

definition zero_crossings :: "real list \<Rightarrow> nat" where
  "zero_crossings samples =
     length (filter (\<lambda>i. samples ! i * samples ! (i - 1) < 0) [1..<length samples])"

definition calculateZCR :: "real list \<Rightarrow> real" where
  "calculateZCR samples =
     (if length samples = 0 then 0.5
      else real (zero_crossings samples) / real (length samples))"

text \<open>
  The older variant in src/odia-voiceai.tsx has no guard for the empty array: there
  \<open>0 / 0\<close> is NaN. Its caller \<open>process\<close> passes non-empty arrays only.
\<close>

definition calculateZCR_odia :: "real list \<Rightarrow> jsnum" where
  "calculateZCR_odia samples =
     js_div (Num (real (zero_crossings samples))) (Num (real (length samples)))"

text \<open>The parts of \<open>process\<close>, in the order of the source.\<close>

definition frame_zcr :: "real list \<Rightarrow> real" where
  "frame_zcr samples = (if length samples > 0 then calculateZCR samples else 0.5)"

text \<open>\<open>push\<close>, then \<open>shift\<close> once the energy history is longer than \<open>historySize\<close>.\<close>

definition push_history :: "real \<Rightarrow> real \<Rightarrow> vad \<Rightarrow> vad" where
  "push_history energy zcr s =
     (let eh = energyHistory s @ [energy];
          zh = zcrHistory s @ [zcr]
      in if length eh > historySize
         then s\<lparr>energyHistory := tl eh, zcrHistory := tl zh\<rparr>
         else s\<lparr>energyHistory := eh, zcrHistory := zh\<rparr>)"

definition avgEnergy :: "vad \<Rightarrow> real" where
  "avgEnergy s = js_sum (energyHistory s) / real (length (energyHistory s))"

definition avgZCR :: "vad \<Rightarrow> real" where
  "avgZCR s = js_sum (zcrHistory s) / real (length (zcrHistory s))"

definition energySpeech :: "vad \<Rightarrow> bool" where
  "energySpeech s = (avgEnergy s > energyThreshold s)"

definition zcrSpeech :: "vad \<Rightarrow> bool" where
  "zcrSpeech s = (avgZCR s > zcrThreshold s)"

text \<open>The divisor of the energy confidence, \<open>this.energyThreshold * 3\<close>.\<close>

definition energyConfDivisor :: "vad \<Rightarrow> real" where
  "energyConfDivisor s = energyThreshold s * 3"

definition energyConf :: "vad \<Rightarrow> jsnum" where
  "energyConf s = js_min (js_div (Num (avgEnergy s)) (Num (energyConfDivisor s))) (Num 1)"

definition zcrConf :: "vad \<Rightarrow> jsnum" where
  "zcrConf s = js_min (js_div (Num (avgZCR s)) (Num (zcrThreshold s))) (Num 1)"

text \<open>
  \<open>process(volume, samples)\<close>: the updated detector and the callbacks it invoked, in
  order. Before calibration the frame only goes to \<open>calibrate\<close>, whose result is
  dropped.
\<close>

definition process :: "real \<Rightarrow> real list \<Rightarrow> vad \<Rightarrow> vad \<times> event list" where
  "process volume samples s =
     (if \<not> isCalibrated s then (snd (calibrate volume s), [])
      else
        let s1 = push_history volume (frame_zcr samples) s;
            sp = (energySpeech s1 \<and> zcrSpeech s1);
            conf = js_div (js_add (energyConf s1) (zcrConf s1)) (Num 2);
            s2 = s1\<lparr>speechConfidence := conf\<rparr>;
            ev = [VolumeChange volume, Confidence conf]
        in if sp
           then
             (let s3 = s2\<lparr>speechFrames := speechFrames s2 + 1, silenceFrames := 0\<rparr>
              in if \<not> isSpeaking s3 \<and> speechFrames s3 > speechStartThreshold
                 then (s3\<lparr>isSpeaking := True\<rparr>, ev @ [SpeechStart])
                 else (s3, ev))
           else
             (let s3 = s2\<lparr>silenceFrames := silenceFrames s2 + 1, speechFrames := 0\<rparr>
              in if isSpeaking s3 \<and> silenceFrames s3 > speechEndThreshold
                 then (s3\<lparr>isSpeaking := False\<rparr>, ev @ [SpeechEnd])
                 else (s3, ev)))"

definition reset :: "vad \<Rightarrow> vad" where
  "reset s = s\<lparr>isSpeaking := False, speechFrames := 0, silenceFrames := 0,
     speechConfidence := Num 0, energyHistory := [], zcrHistory := []\<rparr>"

text \<open>
  Whether \<open>process\<close> classifies the frame as speech-like in state \<open>s\<close>: the test
  \<open>energySpeech && zcrSpeech\<close> on the histories after the frame was pushed.
\<close>

definition speechLike :: "vad \<Rightarrow> real \<Rightarrow> real list \<Rightarrow> bool" where
  "speechLike s volume samples =
     (let s1 = push_history volume (frame_zcr samples) s
      in energySpeech s1 \<and> zcrSpeech s1)"

text \<open>Driving a detector: the public methods, and a session as a list of calls.\<close>

datatype vad_op = Process real "real list" | Calibrate real | Reset

fun vad_step :: "vad \<Rightarrow> vad_op \<Rightarrow> vad" where
  "vad_step s (Process volume samples) = fst (process volume samples s)"
| "vad_step s (Calibrate volume) = snd (calibrate volume s)"
| "vad_step s Reset = reset s"

definition vad_run :: "vad \<Rightarrow> vad_op list \<Rightarrow> vad" where
  "vad_run s ops = foldl vad_step s ops"

text \<open>
  The energies a session hands to \<open>calibrate\<close>, in order: every direct call, and
  every \<open>process\<close> call made while the detector is not calibrated.
\<close>

fun submitted :: "vad \<Rightarrow> vad_op list \<Rightarrow> real list" where
  "submitted s [] = []"
| "submitted s (Calibrate volume # ops) =
     volume # submitted (vad_step s (Calibrate volume)) ops"
| "submitted s (Process volume samples # ops) =
     (if isCalibrated s then submitted (vad_step s (Process volume samples)) ops
      else volume # submitted (vad_step s (Process volume samples)) ops)"
| "submitted s (Reset # ops) = submitted (vad_step s Reset) ops"

text \<open>A run of frames given to \<open>process\<close>: the events of each frame.\<close>

fun frame_events :: "vad \<Rightarrow> (real \<times> real list) list \<Rightarrow> event list list" where
  "frame_events s [] = []"
| "frame_events s (f # fs) =
     snd (process (fst f) (snd f) s) # frame_events (fst (process (fst f) (snd f) s)) fs"

text \<open>Every frame of the run is classified speech-like (or none is) when it is processed.\<close>

fun allSpeechLike :: "vad \<Rightarrow> (real \<times> real list) list \<Rightarrow> bool" where
  "allSpeechLike s [] = True"
| "allSpeechLike s (f # fs) =
     (speechLike s (fst f) (snd f) \<and> allSpeechLike (fst (process (fst f) (snd f) s)) fs)"

fun noneSpeechLike :: "vad \<Rightarrow> (real \<times> real list) list \<Rightarrow> bool" where
  "noneSpeechLike s [] = True"
| "noneSpeechLike s (f # fs) =
     (\<not> speechLike s (fst f) (snd f) \<and> noneSpeechLike (fst (process (fst f) (snd f) s)) fs)"

section \<open>AudioBufferManager (src/src/App.tsx)\<close>

text \<open>
  Each \<open>new Audio(url)\<close> creates an element with an identity of its own: its index in
  \<open>audios\<close>, the list of all elements created so far with the blob each one plays and
  its playback status. The fields \<open>queue\<close>, \<open>isPlaying\<close> and \<open>currentAudio\<close> are those
  of the class; \<open>audios\<close> is the browser's side of the state.
\<close>

datatype audio_status = Playing | Paused | Finished

record 'a buffer_manager =
  queue :: "'a list"
  isPlaying :: bool
  currentAudio :: "nat option"
  audios :: "('a \<times> audio_status) list"

definition new_manager :: "'a buffer_manager" where
  "new_manager = \<lparr> queue = [], isPlaying = False, currentAudio = None, audios = [] \<rparr>"

text \<open>
  \<open>playNext()\<close>: it has no \<open>await\<close>, so its body runs to the call of \<open>play()\<close>
  within the caller's turn.
\<close>

definition playNext :: "'a buffer_manager \<Rightarrow> 'a buffer_manager" where
  "playNext m =
     (case queue m of
        [] \<Rightarrow> m\<lparr>isPlaying := False\<rparr>
      | audioBlob # rest \<Rightarrow>
          m\<lparr>isPlaying := True, queue := rest,
            currentAudio := Some (length (audios m)),
            audios := audios m @ [(audioBlob, Playing)]\<rparr>)"

definition add :: "'a \<Rightarrow> 'a buffer_manager \<Rightarrow> 'a buffer_manager" where
  "add audioBlob m =
     (let m1 = m\<lparr>queue := queue m @ [audioBlob]\<rparr>
      in if \<not> isPlaying m1 then playNext m1 else m1)"

definition set_status :: "nat \<Rightarrow> audio_status \<Rightarrow> ('a \<times> audio_status) list \<Rightarrow> ('a \<times> audio_status) list" where
  "set_status i st as = (if i < length as then as[i := (fst (as ! i), st)] else as)"

definition stop :: "'a buffer_manager \<Rightarrow> 'a buffer_manager" where
  "stop m =
     (let m1 = (case currentAudio m of
                  Some i \<Rightarrow> m\<lparr>audios := set_status i Paused (audios m), currentAudio := None\<rparr>
                | None \<Rightarrow> m)
      in m1\<lparr>queue := [], isPlaying := False\<rparr>)"

definition clear :: "'a buffer_manager \<Rightarrow> 'a buffer_manager" where
  "clear m = stop m"

text \<open>
  The three completion handlers that \<open>playNext\<close> attaches to the element it creates:
  \<open>onended\<close>, \<open>onerror\<close> and the rejection of \<open>play()\<close>. Each one calls
  \<open>this.playNext()\<close> and tests nothing. When one of them runs for element \<open>i\<close>,
  that element is no longer playing.
\<close>

datatype signal = Ended | Errored | PlayRejected

definition completion :: "signal \<Rightarrow> nat \<Rightarrow> 'a buffer_manager \<Rightarrow> 'a buffer_manager" where
  "completion sg i m =
     (if i < length (audios m)
      then playNext (m\<lparr>audios := set_status i Finished (audios m)\<rparr>)
      else m)"

datatype 'a qop = Add 'a | Completion signal nat | Stop | Clear

fun q_step :: "'a buffer_manager \<Rightarrow> 'a qop \<Rightarrow> 'a buffer_manager" where
  "q_step m (Add b) = add b m"
| "q_step m (Completion sg i) = completion sg i m"
| "q_step m Stop = stop m"
| "q_step m Clear = clear m"

definition q_run :: "'a buffer_manager \<Rightarrow> 'a qop list \<Rightarrow> 'a buffer_manager" where
  "q_run m ops = foldl q_step m ops"

text \<open>The blobs whose playback has begun, in the order it began, and those playing now.\<close>

definition started :: "'a buffer_manager \<Rightarrow> 'a list" where
  "started m = map fst (audios m)"

definition playing :: "'a buffer_manager \<Rightarrow> nat list" where
  "playing m = filter (\<lambda>i. snd (audios m ! i) = Playing) [0..<length (audios m)]"

definition enqueued :: "'a qop list \<Rightarrow> 'a list" where
  "enqueued ops = concat (map (\<lambda>x. case x of Add b \<Rightarrow> [b] | _ \<Rightarrow> []) ops)"

text \<open>
  A session of \<open>add\<close> calls and completion signals in which every signal is for the
  element that is current and playing when it arrives.
\<close>

fun live_session :: "'a buffer_manager \<Rightarrow> 'a qop list \<Rightarrow> bool" where
  "live_session m [] = True"
| "live_session m (Add b # ops) = live_session (add b m) ops"
| "live_session m (Completion sg i # ops) =
     (currentAudio m = Some i \<and> i \<in> set (playing m) \<and> live_session (completion sg i m) ops)"
| "live_session m (x # ops) = False"

section \<open>ResourceCleanup (src/unnamed/part_000)\<close>

text \<open>
  Resources are named by numbers: an AudioContext, a MediaStream, an AudioNode and an
  animation-frame id each by its identity. The platform calls that release a resource
  are recorded in \<open>calls\<close> in the order they are made. What the browser does is a
  parameter: which platform calls raise (or return a promise that rejects), the tracks
  of each stream, and whether \<open>window.speechSynthesis\<close> exists.
\<close>

datatype release_call =
    CancelAnimationFrame nat
  | Disconnect nat
  | StopTrack nat nat
  | CancelSpeech
  | CloseContext nat

record host =
  raises :: "release_call \<Rightarrow> bool"
  getTracks :: "nat \<Rightarrow> nat list"
  hasSpeechSynthesis :: bool

text \<open>
  The four static sets of the class, each a JavaScript \<open>Set\<close>: its elements in
  insertion order. \<open>closedContexts\<close> holds the contexts whose \<open>state\<close> is
  \<open>'closed'\<close>.
\<close>

record resources =
  activeAudioContexts :: "nat list"
  activeMediaStreams :: "nat list"
  activeAnimationFrames :: "nat list"
  activeAudioNodes :: "nat list"
  closedContexts :: "nat list"
  calls :: "release_call list"

definition set_add :: "nat \<Rightarrow> nat list \<Rightarrow> nat list" where
  "set_add x xs = (if x \<in> set xs then xs else xs @ [x])"

definition set_delete :: "nat \<Rightarrow> nat list \<Rightarrow> nat list" where
  "set_delete x xs = filter (\<lambda>y. y \<noteq> x) xs"

definition no_resources :: resources where
  "no_resources = \<lparr> activeAudioContexts = [], activeMediaStreams = [],
     activeAnimationFrames = [], activeAudioNodes = [], closedContexts = [], calls = [] \<rparr>"

definition trackAudioContext :: "nat \<Rightarrow> resources \<Rightarrow> resources" where
  "trackAudioContext c r = r\<lparr>activeAudioContexts := set_add c (activeAudioContexts r)\<rparr>"

definition trackMediaStream :: "nat \<Rightarrow> resources \<Rightarrow> resources" where
  "trackMediaStream st r = r\<lparr>activeMediaStreams := set_add st (activeMediaStreams r)\<rparr>"

definition trackAnimationFrame :: "nat \<Rightarrow> resources \<Rightarrow> resources" where
  "trackAnimationFrame i r = r\<lparr>activeAnimationFrames := set_add i (activeAnimationFrames r)\<rparr>"

definition trackAudioNode :: "nat \<Rightarrow> resources \<Rightarrow> resources" where
  "trackAudioNode n r = r\<lparr>activeAudioNodes := set_add n (activeAudioNodes r)\<rparr>"

text \<open>
  An exception carries the state in which it was raised: what was done before it stays
  done. A result is \<open>Inl\<close> of an exception or \<open>Inr\<close> of the state after a normal
  return.
\<close>

datatype exn = Raised release_call

type_synonym result = "(exn \<times> resources) + resources"

definition platform_call :: "host \<Rightarrow> release_call \<Rightarrow> resources \<Rightarrow> result" where
  "platform_call h c r =
     (let r1 = r\<lparr>calls := calls r @ [c]\<rparr>
      in if raises h c then Inl (Raised c, r1) else Inr r1)"

text \<open>\<open>try { body } catch (error) { logError }\<close>: the handler only logs.\<close>

definition try_catch :: "result \<Rightarrow> result" where
  "try_catch body = (case body of Inl (e, r1) \<Rightarrow> Inr r1 | Inr r1 \<Rightarrow> Inr r1)"

definition and_then :: "result \<Rightarrow> (resources \<Rightarrow> result) \<Rightarrow> result" where
  "and_then x f = (case x of Inl er \<Rightarrow> Inl er | Inr r1 \<Rightarrow> f r1)"

text \<open>
  \<open>forEach\<close> over the elements of an array or a Set. A callback of \<open>cleanupAll\<close>
  deletes from the Set it iterates only the element it is visiting, so the elements
  visited are those in the Set when the loop starts.
\<close>

fun forEach :: "(nat \<Rightarrow> resources \<Rightarrow> result) \<Rightarrow> nat list \<Rightarrow> resources \<Rightarrow> result" where
  "forEach f [] r = Inr r"
| "forEach f (x # xs) r = and_then (f x r) (forEach f xs)"

definition cleanupAudioContext :: "host \<Rightarrow> nat option \<Rightarrow> resources \<Rightarrow> result" where
  "cleanupAudioContext h context r =
     (case context of
        None \<Rightarrow> Inr r
      | Some c \<Rightarrow>
          try_catch
            (if c \<notin> set (closedContexts r)
             then and_then (platform_call h (CloseContext c) r)
                    (\<lambda>r1. Inr (r1\<lparr>closedContexts := set_add c (closedContexts r1),
                                  activeAudioContexts := set_delete c (activeAudioContexts r1)\<rparr>))
             else Inr r))"

definition cleanupMediaStream :: "host \<Rightarrow> nat option \<Rightarrow> resources \<Rightarrow> result" where
  "cleanupMediaStream h stream r =
     (case stream of
        None \<Rightarrow> Inr r
      | Some st \<Rightarrow>
          try_catch
            (and_then (forEach (\<lambda>track. platform_call h (StopTrack st track)) (getTracks h st) r)
               (\<lambda>r1. Inr (r1\<lparr>activeMediaStreams := set_delete st (activeMediaStreams r1)\<rparr>))))"

definition cleanupAnimationFrame :: "host \<Rightarrow> nat option \<Rightarrow> resources \<Rightarrow> result" where
  "cleanupAnimationFrame h ident r =
     (case ident of
        None \<Rightarrow> Inr r
      | Some i \<Rightarrow>
          try_catch
            (and_then (platform_call h (CancelAnimationFrame i) r)
               (\<lambda>r1. Inr (r1\<lparr>activeAnimationFrames := set_delete i (activeAnimationFrames r1)\<rparr>))))"

text \<open>
  \<open>cleanupAudioNodes()\<close>: a tracked node is an AudioNode, which has \<open>disconnect\<close>;
  each node has a \<open>try\<close> of its own, and the Set is cleared after the loop.
\<close>

definition cleanupAudioNodes :: "host \<Rightarrow> resources \<Rightarrow> result" where
  "cleanupAudioNodes h r =
     and_then (forEach (\<lambda>node r1. try_catch (platform_call h (Disconnect node) r1))
                 (activeAudioNodes r) r)
       (\<lambda>r1. Inr (r1\<lparr>activeAudioNodes := []\<rparr>))"

definition cleanupSpeechSynthesis :: "host \<Rightarrow> resources \<Rightarrow> result" where
  "cleanupSpeechSynthesis h r =
     try_catch (if hasSpeechSynthesis h then platform_call h CancelSpeech r else Inr r)"

text \<open>
  \<open>cleanupAll()\<close>. Each \<open>cleanupAudioContext\<close> of the last step runs up to its call of
  \<open>context.close()\<close> inside \<open>map\<close>, in the order of the Set; the deletions that follow
  the \<open>await\<close> touch one context each, so running the calls one after the other gives
  the same calls in the same order and the same final state.
\<close>

definition cleanupAll :: "host \<Rightarrow> resources \<Rightarrow> result" where
  "cleanupAll h r =
     and_then (forEach (\<lambda>i. cleanupAnimationFrame h (Some i)) (activeAnimationFrames r) r)
       (\<lambda>r1. and_then (cleanupAudioNodes h r1)
         (\<lambda>r2. and_then (forEach (\<lambda>st. cleanupMediaStream h (Some st)) (activeMediaStreams r2) r2)
           (\<lambda>r3. and_then (cleanupSpeechSynthesis h r3)
             (\<lambda>r4. forEach (\<lambda>c. cleanupAudioContext h (Some c)) (activeAudioContexts r4) r4))))"

record stats =
  audioContexts :: int
  mediaStreams :: int
  animationFrames :: int
  audioNodes :: int

definition getResourceStats :: "resources \<Rightarrow> stats" where
  "getResourceStats r =
     \<lparr> audioContexts = int (length (activeAudioContexts r)),
       mediaStreams = int (length (activeMediaStreams r)),
       animationFrames = int (length (activeAnimationFrames r)),
       audioNodes = int (length (activeAudioNodes r)) \<rparr>"

definition checkForLeaks :: "resources \<Rightarrow> bool" where
  "checkForLeaks r =
     (let stats = getResourceStats r
      in audioContexts stats > 0 \<or> mediaStreams stats > 0 \<or>
         animationFrames stats > 0 \<or> audioNodes stats > 0)"

text \<open>The representation invariant of the four Sets: no element twice.\<close>

definition sets_ok :: "resources \<Rightarrow> bool" where
  "sets_ok r = (distinct (activeAudioContexts r) \<and> distinct (activeMediaStreams r) \<and>
     distinct (activeAnimationFrames r) \<and> distinct (activeAudioNodes r))"

text \<open>The rank of a platform call in the order of \<open>cleanupAll\<close>, by the kind of resource.\<close>

fun kind_rank :: "release_call \<Rightarrow> nat" where
  "kind_rank (CancelAnimationFrame i) = 0"
| "kind_rank (Disconnect n) = 1"
| "kind_rank (StopTrack st t) = 2"
| "kind_rank CancelSpeech = 3"
| "kind_rank (CloseContext c) = 4"

text \<open>The state a call returned, for reading a result that is known to be a return.\<close>

definition returned :: "result \<Rightarrow> resources" where
  "returned x = (case x of Inl (e, r1) \<Rightarrow> r1 | Inr r1 \<Rightarrow> r1)"

definition is_return :: "result \<Rightarrow> bool" where
  "is_return x = (case x of Inl er \<Rightarrow> False | Inr r1 \<Rightarrow> True)"

text \<open>
  The calibration invariant, against the energies \<open>subs\<close> handed to \<open>calibrate\<close> so
  far: the stored samples are the first 30 of them, the detector is calibrated from the
  31st call on, and then the noise estimate and the threshold are those of the samples.
\<close>

definition cal_inv :: "vad \<Rightarrow> real list \<Rightarrow> bool" where
  "cal_inv s subs =
     (calibrationSamples s = take 30 subs \<and>
      isCalibrated s = (30 < length subs) \<and>
      (if isCalibrated s
       then backgroundNoise s = sum_list (take 30 subs) / 30 \<and>
            energyThreshold s = backgroundNoise s * 3
       else True))"

text \<open>
  The bound on the counters in every state a session reaches: a detector in the
  Speech state has seen at most 8 frames of silence in a row, one in the Silence state
  at most 2 speech-like frames in a row.
\<close>

definition counters_ok :: "vad \<Rightarrow> bool" where
  "counters_ok s = (if isSpeaking s then silenceFrames s \<le> 8 else speechFrames s \<le> 2)"

text \<open>
  The invariant of the manager in a session without \<open>stop\<close>: while \<open>isPlaying\<close> is
  set, the current element is the one element playing; otherwise nothing plays and
  nothing is queued.
\<close>

definition q_inv :: "'a buffer_manager \<Rightarrow> bool" where
  "q_inv m =
     (if isPlaying m
      then (case currentAudio m of None \<Rightarrow> False | Some i \<Rightarrow> playing m = [i])
      else playing m = [] \<and> queue m = [])"

text \<open>
  The platform calls that \<open>cleanupMediaStream\<close> makes for a stream with the given
  tracks: \<open>stop\<close> on each track in turn, up to the first call that raises.
\<close>

fun attempted :: "host \<Rightarrow> nat \<Rightarrow> nat list \<Rightarrow> release_call list" where
  "attempted h st [] = []"
| "attempted h st (t # ts) =
     StopTrack st t # (if raises h (StopTrack st t) then [] else attempted h st ts)"

text \<open>
  The order of release as the specification gives it, to compare with the calls that
  \<open>cleanupAll\<close> makes: the animation frames, then the audio nodes, then the tracks of
  the media streams, then speech synthesis, and the audio contexts that are not
  closed already last.
\<close>

definition release_order_spec :: "host \<Rightarrow> resources \<Rightarrow> release_call list" where
  "release_order_spec h r =
     map CancelAnimationFrame (activeAnimationFrames r) @
     map Disconnect (activeAudioNodes r) @
     concat (map (\<lambda>st. attempted h st (getTracks h st)) (activeMediaStreams r)) @
     (if hasSpeechSynthesis h then [CancelSpeech] else []) @
     map CloseContext (filter (\<lambda>c. c \<notin> set (closedContexts r)) (activeAudioContexts r))"

text \<open>
  What the specification asks of \<open>getResourceStats\<close>: each count is the number of
  resources of its kind that are tracked, and none is negative.
\<close>

definition tracked_counts :: "resources \<Rightarrow> stats" where
  "tracked_counts r =
     \<lparr> audioContexts = int (card (set (activeAudioContexts r))),
       mediaStreams = int (card (set (activeMediaStreams r))),
       animationFrames = int (card (set (activeAnimationFrames r))),
       audioNodes = int (card (set (activeAudioNodes r))) \<rparr>"

definition total :: "stats \<Rightarrow> int" where
  "total st = audioContexts st + mediaStreams st + animationFrames st + audioNodes st"

definition counts_nonneg :: "stats \<Rightarrow> bool" where
  "counts_nonneg st =
     (0 \<le> audioContexts st \<and> 0 \<le> mediaStreams st \<and> 0 \<le> animationFrames st \<and> 0 \<le> audioNodes st)"

text \<open>
  Releasing twice with the release operation \<open>f\<close>: neither call raises; after each
  the counts are the numbers of tracked resources; the second call changes no count;
  and over both calls the counts drop by at most one in total.
\<close>

definition release_twice :: "(resources \<Rightarrow> result) \<Rightarrow> resources \<Rightarrow> bool" where
  "release_twice f r =
     (case f r of
        Inl er \<Rightarrow> False
      | Inr r1 \<Rightarrow>
          (case f r1 of
             Inl er \<Rightarrow> False
           | Inr r2 \<Rightarrow>
               getResourceStats r1 = tracked_counts r1 \<and>
               getResourceStats r2 = tracked_counts r2 \<and>
               getResourceStats r2 = getResourceStats r1 \<and>
               counts_nonneg (getResourceStats r2) \<and>
               total (getResourceStats r) - 1 \<le> total (getResourceStats r2) \<and>
               total (getResourceStats r2) \<le> total (getResourceStats r)))"

text \<open>
  An example: a browser whose calls all succeed and in which stream 1 has the tracks
  10 and 11, and a registry that tracks two frames (one of them twice), a node, a
  stream and two contexts, one of which is closed already.
\<close>

definition quiet_host :: host where
  "quiet_host = \<lparr> raises = (\<lambda>c. False),
     getTracks = (\<lambda>st. if st = 1 then [10, 11] else []),
     hasSpeechSynthesis = True \<rparr>"

definition session_resources :: resources where
  "session_resources =
     trackAudioContext 6 (trackAudioContext 5 (trackMediaStream 1 (trackAudioNode 3
       (trackAnimationFrame 8 (trackAnimationFrame 7 (trackAnimationFrame 7
         (no_resources\<lparr>closedContexts := [6]\<rparr>)))))))"

section \<open>Calibration\<close>

lemma foldl_add_sum_list: "foldl (+) a xs = a + sum_list (xs::real list)"
  by (induction xs arbitrary: a) simp_all

lemma js_sum_sum_list: "js_sum xs = sum_list xs"
  by (simp add: js_sum_def foldl_add_sum_list)

lemma cal_inv_new: "cal_inv new_vad []"
  by (simp add: cal_inv_def new_vad_def)

lemma cal_inv_calibrate:
  assumes "cal_inv s subs"
  shows "cal_inv (snd (calibrate v s)) (subs @ [v])"
proof (cases "length subs < 30")
  case True
  with assms show ?thesis
    by (auto simp: cal_inv_def calibrate_def calibrationTarget_def)
next
  case False
  with assms show ?thesis
    by (auto simp: cal_inv_def calibrate_def calibrationTarget_def Let_def js_sum_sum_list)
qed

lemma process_uncalibrated:
  "\<not> isCalibrated s \<Longrightarrow> process v smp s = (snd (calibrate v s), [])"
  by (simp add: process_def)

lemma process_calibrated_fields:
  "isCalibrated s \<Longrightarrow>
     calibrationSamples (fst (process v smp s)) = calibrationSamples s \<and>
     isCalibrated (fst (process v smp s)) \<and>
     backgroundNoise (fst (process v smp s)) = backgroundNoise s \<and>
     energyThreshold (fst (process v smp s)) = energyThreshold s"
  by (simp add: process_def Let_def push_history_def)

lemma reset_fields:
  "calibrationSamples (reset s) = calibrationSamples s \<and>
   isCalibrated (reset s) = isCalibrated s \<and>
   backgroundNoise (reset s) = backgroundNoise s \<and>
   energyThreshold (reset s) = energyThreshold s"
  by (simp add: reset_def)

lemma cal_inv_cong:
  "cal_inv s subs \<Longrightarrow> calibrationSamples t = calibrationSamples s \<Longrightarrow>
   isCalibrated t = isCalibrated s \<Longrightarrow> backgroundNoise t = backgroundNoise s \<Longrightarrow>
   energyThreshold t = energyThreshold s \<Longrightarrow> cal_inv t subs"
  by (simp add: cal_inv_def)

lemma cal_inv_run:
  "cal_inv s subs \<Longrightarrow> cal_inv (vad_run s ops) (subs @ submitted s ops)"
proof (induction ops arbitrary: s subs)
  case Nil
  then show ?case by (simp add: vad_run_def)
next
  case (Cons x ops)
  show ?case
  proof (cases x)
    case (Process v smp)
    show ?thesis
    proof (cases "isCalibrated s")
      case True
      have "cal_inv (fst (process v smp s)) subs"
        using True process_calibrated_fields [OF True, of v smp]
        by (intro cal_inv_cong [OF Cons.prems]) simp_all
      from Cons.IH [OF this] show ?thesis
        using True Process by (simp add: vad_run_def)
    next
      case False
      have "cal_inv (fst (process v smp s)) (subs @ [v])"
        using cal_inv_calibrate [OF Cons.prems, of v] False
        by (simp add: process_uncalibrated)
      from Cons.IH [OF this] show ?thesis
        using False Process by (simp add: vad_run_def)
    qed
  next
    case (Calibrate v)
    from Cons.IH [OF cal_inv_calibrate [OF Cons.prems, of v]] show ?thesis
      using Calibrate by (simp add: vad_run_def)
  next
    case Reset
    have "cal_inv (reset s) subs"
      using reset_fields [of s] by (intro cal_inv_cong [OF Cons.prems]) simp_all
    from Cons.IH [OF this] show ?thesis
      using Reset by (simp add: vad_run_def)
  qed
qed

lemma cal_inv_session: "cal_inv (vad_run new_vad ops) (submitted new_vad ops)"
  using cal_inv_run [OF cal_inv_new, of ops] by simp

lemma vad_run_append: "vad_run s (ops @ ops') = vad_run (vad_run s ops) ops'"
  by (simp add: vad_run_def)

lemma submitted_append:
  "submitted s (ops @ ops') = submitted s ops @ submitted (vad_run s ops) ops'"
  by (induction s ops rule: submitted.induct) (simp_all add: vad_run_def)

text \<open>
  C1. In every session of a new detector (calls of \<open>process\<close>, \<open>calibrate\<close> and
  \<open>reset\<close> in any order) that has completed calibration, at least 30 energies were
  handed to the calibrator, \<open>backgroundNoise\<close> is the arithmetic mean of exactly the
  first 30 of them, \<open>energyThreshold\<close> is \<open>backgroundNoise * 3\<close>, and whatever calls
  follow, the detector stays calibrated with the same noise estimate and the same
  threshold.
\<close>

theorem calibration_threshold_fixed:
  assumes "isCalibrated (vad_run new_vad ops)"
  shows "length (take 30 (submitted new_vad ops)) = 30 \<and>
         backgroundNoise (vad_run new_vad ops) =
           sum_list (take 30 (submitted new_vad ops)) /
             real (length (take 30 (submitted new_vad ops))) \<and>
         energyThreshold (vad_run new_vad ops) = backgroundNoise (vad_run new_vad ops) * 3 \<and>
         (\<forall>rest. isCalibrated (vad_run (vad_run new_vad ops) rest) \<and>
                 backgroundNoise (vad_run (vad_run new_vad ops) rest) =
                   backgroundNoise (vad_run new_vad ops) \<and>
                 energyThreshold (vad_run (vad_run new_vad ops) rest) =
                   energyThreshold (vad_run new_vad ops))"
proof -
  let ?s = "vad_run new_vad ops"
  let ?subs = "submitted new_vad ops"
  have inv: "cal_inv ?s ?subs"
    by (rule cal_inv_session)
  with assms have len: "30 < length ?subs"
    by (simp add: cal_inv_def)
  then have l30: "length (take 30 ?subs) = 30" by simp
  have bg: "backgroundNoise ?s = sum_list (take 30 ?subs) / 30"
    and thr: "energyThreshold ?s = backgroundNoise ?s * 3"
    using inv assms by (simp_all add: cal_inv_def)
  have later: "isCalibrated (vad_run ?s rest) \<and>
      backgroundNoise (vad_run ?s rest) = backgroundNoise ?s \<and>
      energyThreshold (vad_run ?s rest) = energyThreshold ?s" for rest
  proof -
    have inv': "cal_inv (vad_run new_vad (ops @ rest)) (submitted new_vad (ops @ rest))"
      by (rule cal_inv_session)
    have t: "take 30 (submitted new_vad (ops @ rest)) = take 30 ?subs"
      using len by (simp add: submitted_append)
    have c: "isCalibrated (vad_run new_vad (ops @ rest))"
      using inv' len by (simp add: cal_inv_def submitted_append)
    then show ?thesis
      using inv' t bg thr by (simp add: cal_inv_def vad_run_append)
  qed
  show ?thesis using l30 bg thr later by simp
qed

theorem calibration_threshold_fixed_witness:
  "isCalibrated (vad_run new_vad (replicate 31 (Calibrate 1))) \<and>
   backgroundNoise (vad_run new_vad (replicate 31 (Calibrate 1))) = 1 \<and>
   energyThreshold (vad_run new_vad (replicate 31 (Calibrate 1))) = 3 \<and>
   energyThreshold (vad_run (vad_run new_vad (replicate 31 (Calibrate 1)))
      [Process 5 [1, -1], Reset, Calibrate 9]) = 3"
proof -
  have c: "isCalibrated (vad_run new_vad (replicate 31 (Calibrate 1)))"
    by code_simp
  have b: "backgroundNoise (vad_run new_vad (replicate 31 (Calibrate 1))) = 1"
    by code_simp
  show ?thesis
    using calibration_threshold_fixed [OF c] c b by simp
qed

section \<open>Zero-crossing rate\<close>

lemma zero_crossings_card:
  "zero_crossings xs = card {i. 1 \<le> i \<and> i < length xs \<and> xs ! i * xs ! (i - 1) < 0}"
proof -
  have "card (set (filter (\<lambda>i. xs ! i * xs ! (i - 1) < 0) [1..<length xs])) =
      length (filter (\<lambda>i. xs ! i * xs ! (i - 1) < 0) [1..<length xs])"
    by (rule distinct_card) simp
  then have "zero_crossings xs =
      card (set (filter (\<lambda>i. xs ! i * xs ! (i - 1) < 0) [1..<length xs]))"
    unfolding zero_crossings_def by simp
  also have "set (filter (\<lambda>i. xs ! i * xs ! (i - 1) < 0) [1..<length xs]) =
      {i. 1 \<le> i \<and> i < length xs \<and> xs ! i * xs ! (i - 1) < 0}"
    by auto
  finally show ?thesis .
qed

text \<open>
  C5, as stated, at the array \<open>[1, -1, 1, -1]\<close>: three of its adjacent pairs cross
  zero and its length is 4, so \<open>calculateZCR\<close> returns 0.75 and not 1.
\<close>

theorem calculateZCR_alternating_not_one: "calculateZCR [1, -1, 1, -1] \<noteq> 1"
  by (simp add: calculateZCR_def zero_crossings_def upt_rec)

text \<open>
  C5, amended. \<open>calculateZCR\<close> returns 0.5 on the empty array and 0.75 on
  \<open>[1, -1, 1, -1]\<close>; on a non-empty array it returns the number of indices \<open>i\<close> with
  \<open>samples[i] * samples[i - 1] < 0\<close> divided by the length of the array. The variant of
  src/odia-voiceai.tsx computes the same on a non-empty array and NaN on the empty
  one, for which its caller \<open>process\<close> takes 0.5 instead.
\<close>

theorem calculateZCR_value:
  "calculateZCR [] = 0.5 \<and>
   calculateZCR [1, -1, 1, -1] = 0.75 \<and>
   calculateZCR xs =
     (if xs = [] then 0.5
      else real (card {i. 1 \<le> i \<and> i < length xs \<and> xs ! i * xs ! (i - 1) < 0}) /
           real (length xs)) \<and>
   calculateZCR_odia xs = (if xs = [] then NaN else Num (calculateZCR xs)) \<and>
   frame_zcr xs = calculateZCR xs"
proof -
  have a: "calculateZCR [] = 0.5"
    by (simp add: calculateZCR_def)
  have b: "calculateZCR [1, -1, 1, -1] = 0.75"
    by (simp add: calculateZCR_def zero_crossings_def upt_rec)
  have c: "calculateZCR xs =
     (if xs = [] then 0.5
      else real (card {i. 1 \<le> i \<and> i < length xs \<and> xs ! i * xs ! (i - 1) < 0}) /
           real (length xs))"
    by (simp add: calculateZCR_def zero_crossings_card)
  have d: "calculateZCR_odia xs = (if xs = [] then NaN else Num (calculateZCR xs))"
    by (simp add: calculateZCR_odia_def calculateZCR_def zero_crossings_def)
  have e: "frame_zcr xs = calculateZCR xs"
    by (simp add: frame_zcr_def calculateZCR_def)
  show ?thesis using a b c d e by blast
qed

section \<open>Completion of the calibration\<close>

lemma calibrate_result:
  "cal_inv s subs \<Longrightarrow> fst (calibrate v s) = (30 \<le> length subs)"
  by (auto simp: cal_inv_def calibrate_def calibrationTarget_def Let_def)

lemma calibrate_machine_fields:
  "isSpeaking (snd (calibrate v s)) = isSpeaking s \<and>
   speechFrames (snd (calibrate v s)) = speechFrames s \<and>
   silenceFrames (snd (calibrate v s)) = silenceFrames s \<and>
   energyHistory (snd (calibrate v s)) = energyHistory s \<and>
   zcrHistory (snd (calibrate v s)) = zcrHistory s \<and>
   speechConfidence (snd (calibrate v s)) = speechConfidence s"
  by (simp add: calibrate_def Let_def)

text \<open>
  C4, amended. With \<open>n\<close> the number of energies a session has handed to the
  calibrator so far, the next call of \<open>calibrate\<close> returns true exactly when
  \<open>n \<ge> 30\<close>: each of the first 30 calls stores its observation and returns false, and
  the call after them, the 31st, whose own observation is not stored, sets
  \<open>isCalibrated\<close>, computes \<open>backgroundNoise\<close> as the mean of the 30 stored energies
  and \<open>energyThreshold\<close> as three times it, and returns true. While the detector is
  not calibrated, \<open>process\<close> only hands the energy to \<open>calibrate\<close>: it emits no event
  and leaves the speaking flag, both counters, both histories and the confidence as
  they were.
\<close>

theorem calibration_completes_after_30_samples:
  "fst (calibrate v (vad_run new_vad ops)) = (30 \<le> length (submitted new_vad ops)) \<and>
   isCalibrated (snd (calibrate v (vad_run new_vad ops))) = (30 \<le> length (submitted new_vad ops)) \<and>
   isCalibrated (vad_run new_vad ops) = (30 < length (submitted new_vad ops)) \<and>
   (30 \<le> length (submitted new_vad ops) \<longrightarrow>
      backgroundNoise (snd (calibrate v (vad_run new_vad ops))) =
        sum_list (take 30 (submitted new_vad ops)) / 30 \<and>
      energyThreshold (snd (calibrate v (vad_run new_vad ops))) =
        backgroundNoise (snd (calibrate v (vad_run new_vad ops))) * 3) \<and>
   (\<not> isCalibrated (vad_run new_vad ops) \<longrightarrow>
      snd (process v smp (vad_run new_vad ops)) = [] \<and>
      fst (process v smp (vad_run new_vad ops)) = snd (calibrate v (vad_run new_vad ops)) \<and>
      isSpeaking (fst (process v smp (vad_run new_vad ops))) = isSpeaking (vad_run new_vad ops) \<and>
      speechFrames (fst (process v smp (vad_run new_vad ops))) = speechFrames (vad_run new_vad ops) \<and>
      silenceFrames (fst (process v smp (vad_run new_vad ops))) = silenceFrames (vad_run new_vad ops) \<and>
      energyHistory (fst (process v smp (vad_run new_vad ops))) = energyHistory (vad_run new_vad ops) \<and>
      zcrHistory (fst (process v smp (vad_run new_vad ops))) = zcrHistory (vad_run new_vad ops) \<and>
      speechConfidence (fst (process v smp (vad_run new_vad ops))) = speechConfidence (vad_run new_vad ops))"
proof -
  let ?s = "vad_run new_vad ops"
  let ?subs = "submitted new_vad ops"
  have inv: "cal_inv ?s ?subs" by (rule cal_inv_session)
  have inv': "cal_inv (snd (calibrate v ?s)) (?subs @ [v])"
    by (rule cal_inv_calibrate [OF inv])
  have r: "fst (calibrate v ?s) = (30 \<le> length ?subs)"
    by (rule calibrate_result [OF inv])
  have c': "isCalibrated (snd (calibrate v ?s)) = (30 \<le> length ?subs)"
    using inv' by (auto simp: cal_inv_def)
  have c: "isCalibrated ?s = (30 < length ?subs)"
    using inv by (simp add: cal_inv_def)
  have b: "30 \<le> length ?subs \<longrightarrow>
      backgroundNoise (snd (calibrate v ?s)) = sum_list (take 30 ?subs) / 30 \<and>
      energyThreshold (snd (calibrate v ?s)) = backgroundNoise (snd (calibrate v ?s)) * 3"
    using inv' c' by (simp add: cal_inv_def)
  have p: "\<not> isCalibrated ?s \<longrightarrow>
      snd (process v smp ?s) = [] \<and>
      fst (process v smp ?s) = snd (calibrate v ?s) \<and>
      isSpeaking (fst (process v smp ?s)) = isSpeaking ?s \<and>
      speechFrames (fst (process v smp ?s)) = speechFrames ?s \<and>
      silenceFrames (fst (process v smp ?s)) = silenceFrames ?s \<and>
      energyHistory (fst (process v smp ?s)) = energyHistory ?s \<and>
      zcrHistory (fst (process v smp ?s)) = zcrHistory ?s \<and>
      speechConfidence (fst (process v smp ?s)) = speechConfidence ?s"
    using calibrate_machine_fields [of v ?s] by (simp add: process_uncalibrated)
  show ?thesis using r c' c b p by blast
qed

text \<open>
  C4, as stated, on a new detector: the call that supplies the 30th observation
  returns false and leaves the detector uncalibrated; the 31st call returns true.
\<close>

theorem thirtieth_call_returns_false:
  "\<not> fst (calibrate 1 (vad_run new_vad (replicate 29 (Calibrate 1)))) \<and>
   \<not> isCalibrated (snd (calibrate 1 (vad_run new_vad (replicate 29 (Calibrate 1))))) \<and>
   fst (calibrate 1 (vad_run new_vad (replicate 30 (Calibrate 1))))"
  by code_simp

theorem calibration_completes_after_30_samples_witness:
  "30 \<le> length (submitted new_vad (replicate 30 (Process 2 []))) \<and>
   \<not> isCalibrated (vad_run new_vad (replicate 30 (Process 2 []))) \<and>
   fst (calibrate 2 (vad_run new_vad (replicate 30 (Process 2 [])))) \<and>
   backgroundNoise (snd (calibrate 2 (vad_run new_vad (replicate 30 (Process 2 []))))) = 2 \<and>
   energyThreshold (snd (calibrate 2 (vad_run new_vad (replicate 30 (Process 2 []))))) = 6 \<and>
   snd (process 2 [] (vad_run new_vad (replicate 30 (Process 2 [])))) = []"
proof -
  have n: "length (submitted new_vad (replicate 30 (Process 2 []))) = 30"
    by code_simp
  have s: "sum_list (take 30 (submitted new_vad (replicate 30 (Process 2 [])))) = 60"
    by code_simp
  show ?thesis
    using calibration_completes_after_30_samples [of 2 "replicate 30 (Process 2 [])" "[]"] n s
    by simp
qed

section \<open>The speech state machine\<close>

lemma push_history_fields:
  "isSpeaking (push_history e z s) = isSpeaking s"
  "speechFrames (push_history e z s) = speechFrames s"
  "silenceFrames (push_history e z s) = silenceFrames s"
  "isCalibrated (push_history e z s) = isCalibrated s"
  "energyThreshold (push_history e z s) = energyThreshold s"
  "zcrThreshold (push_history e z s) = zcrThreshold s"
  by (simp_all add: push_history_def Let_def)

lemma process_speech_step:
  assumes "isCalibrated s" and "speechLike s v smp"
  shows "isCalibrated (fst (process v smp s))"
    and "speechFrames (fst (process v smp s)) = speechFrames s + 1"
    and "silenceFrames (fst (process v smp s)) = 0"
    and "isSpeaking (fst (process v smp s)) = (isSpeaking s \<or> 2 < speechFrames s + 1)"
    and "count_list (snd (process v smp s)) SpeechStart =
           (if \<not> isSpeaking s \<and> 2 < speechFrames s + 1 then 1 else 0)"
    and "count_list (snd (process v smp s)) SpeechEnd = 0"
  using assms
  by (auto simp: process_def speechLike_def Let_def push_history_fields speechStartThreshold_def)

lemma process_silence_step:
  assumes "isCalibrated s" and "\<not> speechLike s v smp"
  shows "isCalibrated (fst (process v smp s))"
    and "silenceFrames (fst (process v smp s)) = silenceFrames s + 1"
    and "speechFrames (fst (process v smp s)) = 0"
    and "isSpeaking (fst (process v smp s)) = (isSpeaking s \<and> \<not> 8 < silenceFrames s + 1)"
    and "count_list (snd (process v smp s)) SpeechEnd =
           (if isSpeaking s \<and> 8 < silenceFrames s + 1 then 1 else 0)"
    and "count_list (snd (process v smp s)) SpeechStart = 0"
  using assms
  by (auto simp: process_def speechLike_def Let_def push_history_fields speechEndThreshold_def)

lemma speech_run_no_start:
  "isCalibrated s \<Longrightarrow> isSpeaking s \<Longrightarrow> allSpeechLike s fs \<Longrightarrow>
     map (\<lambda>ev. count_list ev SpeechStart) (frame_events s fs) = replicate (length fs) 0"
proof (induction fs arbitrary: s)
  case Nil
  then show ?case by simp
next
  case (Cons f fs)
  from Cons.prems have sl: "speechLike s (fst f) (snd f)"
    and rest: "allSpeechLike (fst (process (fst f) (snd f) s)) fs" by simp_all
  note st = process_speech_step [OF Cons.prems(1) sl]
  have "map (\<lambda>ev. count_list ev SpeechStart) (frame_events (fst (process (fst f) (snd f) s)) fs)
      = replicate (length fs) 0"
    using Cons.IH [OF st(1) _ rest] st(4) Cons.prems(2) by simp
  then show ?case using st(5) Cons.prems(2) by simp
qed

lemma speech_run_start:
  "isCalibrated s \<Longrightarrow> \<not> isSpeaking s \<Longrightarrow> speechFrames s \<le> 2 \<Longrightarrow> allSpeechLike s fs \<Longrightarrow>
     map (\<lambda>ev. count_list ev SpeechStart) (frame_events s fs) =
       (replicate (length fs) 0)[2 - speechFrames s := 1]"
proof (induction fs arbitrary: s)
  case Nil
  then show ?case by simp
next
  case (Cons f fs)
  let ?s' = "fst (process (fst f) (snd f) s)"
  from Cons.prems have sl: "speechLike s (fst f) (snd f)"
    and rest: "allSpeechLike ?s' fs" by simp_all
  note st = process_speech_step [OF Cons.prems(1) sl]
  show ?case
  proof (cases "speechFrames s = 2")
    case True
    then have sp: "isSpeaking ?s'" using st(4) by simp
    have "map (\<lambda>ev. count_list ev SpeechStart) (frame_events ?s' fs) = replicate (length fs) 0"
      by (rule speech_run_no_start [OF st(1) sp rest])
    then show ?thesis using st(5) True Cons.prems(2) by simp
  next
    case False
    with Cons.prems(3) have lt: "speechFrames s < 2" by simp
    then have nsp: "\<not> isSpeaking ?s'" and le: "speechFrames ?s' \<le> 2"
      using st(4) st(2) Cons.prems(2) by simp_all
    have "map (\<lambda>ev. count_list ev SpeechStart) (frame_events ?s' fs) =
        (replicate (length fs) 0)[2 - speechFrames ?s' := 1]"
      by (rule Cons.IH [OF st(1) nsp le rest])
    moreover have "2 - speechFrames s = Suc (2 - speechFrames ?s')"
      using lt st(2) by simp
    ultimately show ?thesis using st(5) lt Cons.prems(2) by simp
  qed
qed

lemma silence_run_no_end:
  "isCalibrated s \<Longrightarrow> \<not> isSpeaking s \<Longrightarrow> noneSpeechLike s fs \<Longrightarrow>
     map (\<lambda>ev. count_list ev SpeechEnd) (frame_events s fs) = replicate (length fs) 0"
proof (induction fs arbitrary: s)
  case Nil
  then show ?case by simp
next
  case (Cons f fs)
  from Cons.prems have sl: "\<not> speechLike s (fst f) (snd f)"
    and rest: "noneSpeechLike (fst (process (fst f) (snd f) s)) fs" by simp_all
  note st = process_silence_step [OF Cons.prems(1) sl]
  have "map (\<lambda>ev. count_list ev SpeechEnd) (frame_events (fst (process (fst f) (snd f) s)) fs)
      = replicate (length fs) 0"
    using Cons.IH [OF st(1) _ rest] st(4) Cons.prems(2) by simp
  then show ?case using st(5) Cons.prems(2) by simp
qed

lemma silence_run_end:
  "isCalibrated s \<Longrightarrow> isSpeaking s \<Longrightarrow> silenceFrames s \<le> 8 \<Longrightarrow> noneSpeechLike s fs \<Longrightarrow>
     map (\<lambda>ev. count_list ev SpeechEnd) (frame_events s fs) =
       (replicate (length fs) 0)[8 - silenceFrames s := 1]"
proof (induction fs arbitrary: s)
  case Nil
  then show ?case by simp
next
  case (Cons f fs)
  let ?s' = "fst (process (fst f) (snd f) s)"
  from Cons.prems have sl: "\<not> speechLike s (fst f) (snd f)"
    and rest: "noneSpeechLike ?s' fs" by simp_all
  note st = process_silence_step [OF Cons.prems(1) sl]
  show ?case
  proof (cases "silenceFrames s = 8")
    case True
    then have sp: "\<not> isSpeaking ?s'" using st(4) by simp
    have "map (\<lambda>ev. count_list ev SpeechEnd) (frame_events ?s' fs) = replicate (length fs) 0"
      by (rule silence_run_no_end [OF st(1) sp rest])
    then show ?thesis using st(5) True Cons.prems(2) by simp
  next
    case False
    with Cons.prems(3) have lt: "silenceFrames s < 8" by simp
    then have nsp: "isSpeaking ?s'" and le: "silenceFrames ?s' \<le> 8"
      using st(4) st(2) Cons.prems(2) by simp_all
    have "map (\<lambda>ev. count_list ev SpeechEnd) (frame_events ?s' fs) =
        (replicate (length fs) 0)[8 - silenceFrames ?s' := 1]"
      by (rule Cons.IH [OF st(1) nsp le rest])
    moreover have "8 - silenceFrames s = Suc (8 - silenceFrames ?s')"
      using lt st(2) by simp
    ultimately show ?thesis using st(5) lt Cons.prems(2) by simp
  qed
qed

lemma counters_ok_process: "counters_ok s \<Longrightarrow> counters_ok (fst (process v smp s))"
proof (cases "isCalibrated s")
  case False
  assume "counters_ok s"
  then show ?thesis
    using False calibrate_machine_fields [of v s]
    by (simp add: process_uncalibrated counters_ok_def)
next
  case True
  assume ok: "counters_ok s"
  show ?thesis
  proof (cases "speechLike s v smp")
    case sl: True
    note st = process_speech_step [OF True sl]
    show ?thesis using ok st(2,3,4) by (auto simp: counters_ok_def)
  next
    case sl: False
    note st = process_silence_step [OF True sl]
    show ?thesis using ok st(2,3,4) by (auto simp: counters_ok_def)
  qed
qed

lemma counters_ok_step:
  assumes "counters_ok s"
  shows "counters_ok (vad_step s x)"
proof (cases x)
  case (Process v smp)
  then show ?thesis using counters_ok_process [OF assms] by simp
next
  case (Calibrate v)
  then show ?thesis
    using assms calibrate_machine_fields [of v s] by (simp add: counters_ok_def)
next
  case Reset
  then show ?thesis by (simp add: counters_ok_def reset_def)
qed

lemma counters_ok_run: "counters_ok s \<Longrightarrow> counters_ok (vad_run s ops)"
  by (induction ops arbitrary: s) (simp_all add: vad_run_def counters_ok_step)

lemma counters_ok_session: "counters_ok (vad_run new_vad ops)"
  by (rule counters_ok_run) (simp add: counters_ok_def new_vad_def)

text \<open>
  C2. Take a detector in any state a session can reach, calibrated and in the Silence
  state, and a run of frames each of which \<open>process\<close> classifies speech-like
  (smoothed energy above \<open>energyThreshold\<close> and smoothed ZCR above 0.3).
  \<open>speechFrames\<close> is the number of speech-like frames directly before the run.
  Then \<open>onSpeechStart\<close> is invoked once in the whole run, by the frame that makes
  \<open>speechFrames\<close> exceed 2: counting the frames of the run from 0, frame
  \<open>2 - speechFrames\<close>, and no other. For a run that starts the count
  (\<open>speechFrames = 0\<close>) this is the 3rd frame, and a run of one or two frames invokes
  nothing.
\<close>

theorem speech_start_on_third_frame:
  assumes "isCalibrated (vad_run new_vad ops)"
    and "\<not> isSpeaking (vad_run new_vad ops)"
    and "allSpeechLike (vad_run new_vad ops) fs"
  shows "speechFrames (vad_run new_vad ops) \<le> 2 \<and>
         map (\<lambda>ev. count_list ev SpeechStart) (frame_events (vad_run new_vad ops) fs) =
           (replicate (length fs) 0)[2 - speechFrames (vad_run new_vad ops) := 1]"
proof -
  have le: "speechFrames (vad_run new_vad ops) \<le> 2"
    using counters_ok_session [of ops] assms(2) by (simp add: counters_ok_def)
  show ?thesis
    using le speech_run_start [OF assms(1) assms(2) le assms(3)] by simp
qed

theorem speech_start_on_third_frame_witness:
  "isCalibrated (vad_run new_vad (replicate 31 (Calibrate 1))) \<and>
   \<not> isSpeaking (vad_run new_vad (replicate 31 (Calibrate 1))) \<and>
   speechFrames (vad_run new_vad (replicate 31 (Calibrate 1))) \<le> 2 \<and>
   allSpeechLike (vad_run new_vad (replicate 31 (Calibrate 1))) (replicate 5 (4, [1, -1, 1])) \<and>
   map (\<lambda>ev. count_list ev SpeechStart)
     (frame_events (vad_run new_vad (replicate 31 (Calibrate 1))) (replicate 5 (4, [1, -1, 1]))) =
   [0, 0, 1, 0, 0]"
proof -
  let ?s = "vad_run new_vad (replicate 31 (Calibrate 1))"
  have a: "isCalibrated ?s" by code_simp
  have b: "\<not> isSpeaking ?s" by code_simp
  have c: "speechFrames ?s \<le> 2" by code_simp
  have c0: "speechFrames ?s = 0" by code_simp
  have d: "allSpeechLike ?s (replicate 5 (4, [1, -1, 1]))" by code_simp
  have e: "(replicate (length (replicate 5 (4::real, [1, -1, 1::real]))) (0::nat))[2 - 0 := 1] = [0, 0, 1, 0, 0]"
    by code_simp
  show ?thesis
    using speech_start_on_third_frame [OF a b d] a b c d c0 e by simp
qed

text \<open>
  C3. Take a detector in any state a session can reach, calibrated and in the Speech
  state, and a run of frames none of which \<open>process\<close> classifies speech-like.
  \<open>silenceFrames\<close> is the number of such frames directly before the run. Then
  \<open>onSpeechEnd\<close> is invoked once in the whole run, by the frame that makes
  \<open>silenceFrames\<close> exceed 8: counting the frames of the run from 0, frame
  \<open>8 - silenceFrames\<close>, and no other. For a run that starts the count
  (\<open>silenceFrames = 0\<close>) this is the 9th frame, and a run of fewer than 9 frames
  invokes nothing.
\<close>

theorem speech_end_on_ninth_frame:
  assumes "isCalibrated (vad_run new_vad ops)"
    and "isSpeaking (vad_run new_vad ops)"
    and "noneSpeechLike (vad_run new_vad ops) fs"
  shows "silenceFrames (vad_run new_vad ops) \<le> 8 \<and>
         map (\<lambda>ev. count_list ev SpeechEnd) (frame_events (vad_run new_vad ops) fs) =
           (replicate (length fs) 0)[8 - silenceFrames (vad_run new_vad ops) := 1]"
proof -
  have le: "silenceFrames (vad_run new_vad ops) \<le> 8"
    using counters_ok_session [of ops] assms(2) by (simp add: counters_ok_def)
  show ?thesis
    using le silence_run_end [OF assms(1) assms(2) le assms(3)] by simp
qed

theorem speech_end_on_ninth_frame_witness:
  "isCalibrated (vad_run new_vad (replicate 31 (Calibrate 1) @ replicate 3 (Process 3.1 [1, -1, 1]))) \<and>
   isSpeaking (vad_run new_vad (replicate 31 (Calibrate 1) @ replicate 3 (Process 3.1 [1, -1, 1]))) \<and>
   silenceFrames (vad_run new_vad (replicate 31 (Calibrate 1) @ replicate 3 (Process 3.1 [1, -1, 1]))) \<le> 8 \<and>
   noneSpeechLike (vad_run new_vad (replicate 31 (Calibrate 1) @ replicate 3 (Process 3.1 [1, -1, 1])))
     (replicate 10 (0, [])) \<and>
   map (\<lambda>ev. count_list ev SpeechEnd)
     (frame_events (vad_run new_vad (replicate 31 (Calibrate 1) @ replicate 3 (Process 3.1 [1, -1, 1])))
        (replicate 10 (0, []))) =
   [0, 0, 0, 0, 0, 0, 0, 0, 1, 0]"
proof -
  let ?s = "vad_run new_vad (replicate 31 (Calibrate 1) @ replicate 3 (Process 3.1 [1, -1, 1]))"
  have a: "isCalibrated ?s" by code_simp
  have b: "isSpeaking ?s" by code_simp
  have c: "silenceFrames ?s \<le> 8" by code_simp
  have c0: "silenceFrames ?s = 0" by code_simp
  have d: "noneSpeechLike ?s (replicate 10 (0, []))" by code_simp
  have e: "(replicate (length (replicate 10 (0::real, []::real list))) (0::nat))[8 - 0 := 1] =
      [0, 0, 0, 0, 0, 0, 0, 0, 1, 0]"
    by code_simp
  show ?thesis
    using speech_end_on_ninth_frame [OF a b d] a b c d c0 e by simp
qed

section \<open>A silent calibration window\<close>

lemma calibrated_stays:
  assumes "isCalibrated (vad_run new_vad ops)"
  shows "isCalibrated (vad_run (vad_run new_vad ops) nxt) \<and>
         energyThreshold (vad_run (vad_run new_vad ops) nxt) = energyThreshold (vad_run new_vad ops)"
proof -
  have inv: "cal_inv (vad_run new_vad ops) (submitted new_vad ops)"
    by (rule cal_inv_session)
  with assms have len: "30 < length (submitted new_vad ops)"
    by (simp add: cal_inv_def)
  have inv': "cal_inv (vad_run new_vad (ops @ nxt)) (submitted new_vad (ops @ nxt))"
    by (rule cal_inv_session)
  have t: "take 30 (submitted new_vad (ops @ nxt)) = take 30 (submitted new_vad ops)"
    using len by (simp add: submitted_append)
  have c: "isCalibrated (vad_run new_vad (ops @ nxt))"
    using inv' len by (simp add: cal_inv_def submitted_append)
  then show ?thesis
    using inv inv' t assms by (simp add: cal_inv_def vad_run_append)
qed

lemma zero_run:
  "n \<le> 30 \<Longrightarrow>
     vad_run new_vad (replicate n (Process 0 smp)) = new_vad\<lparr>calibrationSamples := replicate n 0\<rparr>"
proof (induction n)
  case 0
  then show ?case by (simp add: vad_run_def new_vad_def)
next
  case (Suc n)
  have "replicate (Suc n) (Process 0 smp) = replicate n (Process 0 smp) @ [Process 0 smp]"
    by (simp add: replicate_append_same)
  then have "vad_run new_vad (replicate (Suc n) (Process 0 smp)) =
      vad_step (new_vad\<lparr>calibrationSamples := replicate n 0\<rparr>) (Process 0 smp)"
    using Suc by (simp add: vad_run_append) (simp add: vad_run_def)
  also have "\<dots> = new_vad\<lparr>calibrationSamples := replicate n 0 @ [0]\<rparr>"
    using Suc.prems
    by (simp add: process_def calibrate_def calibrationTarget_def new_vad_def)
  finally show ?case by (simp add: replicate_append_same)
qed

lemma zero_session_state:
  "vad_run new_vad (replicate 30 (Process 0 smp) @ [Process v smp']) =
     new_vad\<lparr>calibrationSamples := replicate 30 0, backgroundNoise := 0,
             energyThreshold := 0, isCalibrated := True\<rparr>"
proof -
  have "vad_run new_vad (replicate 30 (Process 0 smp) @ [Process v smp']) =
      vad_step (new_vad\<lparr>calibrationSamples := replicate 30 0\<rparr>) (Process v smp')"
    using zero_run [of 30 smp] by (simp add: vad_run_append) (simp add: vad_run_def)
  also have "\<dots> = new_vad\<lparr>calibrationSamples := replicate 30 0, backgroundNoise := 0,
             energyThreshold := 0, isCalibrated := True\<rparr>"
    by (simp add: process_def calibrate_def calibrationTarget_def new_vad_def Let_def
        js_sum_sum_list sum_list_replicate)
  finally show ?thesis .
qed

lemma zero_threshold_frame:
  assumes "energyThreshold s = 0"
  shows "energyConfDivisor (push_history w z s) = 0"
    and "energyConf (push_history w z s) =
           (if 0 < avgEnergy (push_history w z s) then Num 1
            else if avgEnergy (push_history w z s) < 0 then NegInf else NaN)"
    and "energySpeech (push_history w z s) = (0 < avgEnergy (push_history w z s))"
  using assms
  by (simp_all add: energyConfDivisor_def energyConf_def energySpeech_def push_history_def Let_def)

text \<open>
  C10. There is such a session: 30 frames of energy exactly 0 and one more frame
  (which completes the calibration) leave the detector calibrated with
  \<open>backgroundNoise = 0\<close> and \<open>energyThreshold = 0\<close>. From then on, whatever calls
  follow, the detector stays calibrated and every frame that \<open>process\<close> classifies
  divides the smoothed energy by \<open>energyThreshold * 3 = 0\<close>: the energy confidence is
  1 for a positive smoothed energy (the minimum of Infinity and 1), \<open>-Infinity\<close> for a
  negative one and NaN for 0, and the energy test \<open>avgEnergy > energyThreshold\<close> holds
  exactly for a positive smoothed energy. A silent frame right after calibration
  reports the confidence NaN.
\<close>

theorem zero_noise_zero_divisor:
  "isCalibrated (vad_run new_vad (replicate 30 (Process 0 smp) @ [Process v smp'])) \<and>
   backgroundNoise (vad_run new_vad (replicate 30 (Process 0 smp) @ [Process v smp'])) = 0 \<and>
   energyThreshold (vad_run new_vad (replicate 30 (Process 0 smp) @ [Process v smp'])) = 0 \<and>
   snd (process 0 x (vad_run new_vad (replicate 30 (Process 0 smp) @ [Process v smp']))) =
     [VolumeChange 0, Confidence NaN] \<and>
   (\<forall>nxt w y.
      isCalibrated (vad_run (vad_run new_vad (replicate 30 (Process 0 smp) @ [Process v smp'])) nxt) \<and>
      energyConfDivisor (push_history w (frame_zcr y)
        (vad_run (vad_run new_vad (replicate 30 (Process 0 smp) @ [Process v smp'])) nxt)) = 0 \<and>
      energyConf (push_history w (frame_zcr y)
        (vad_run (vad_run new_vad (replicate 30 (Process 0 smp) @ [Process v smp'])) nxt)) =
        (if 0 < avgEnergy (push_history w (frame_zcr y)
               (vad_run (vad_run new_vad (replicate 30 (Process 0 smp) @ [Process v smp'])) nxt))
         then Num 1
         else if avgEnergy (push_history w (frame_zcr y)
               (vad_run (vad_run new_vad (replicate 30 (Process 0 smp) @ [Process v smp'])) nxt)) < 0
         then NegInf else NaN) \<and>
      energySpeech (push_history w (frame_zcr y)
        (vad_run (vad_run new_vad (replicate 30 (Process 0 smp) @ [Process v smp'])) nxt)) =
        (0 < avgEnergy (push_history w (frame_zcr y)
               (vad_run (vad_run new_vad (replicate 30 (Process 0 smp) @ [Process v smp'])) nxt))))"
proof -
  let ?ops = "replicate 30 (Process 0 smp) @ [Process v smp']"
  let ?s = "vad_run new_vad ?ops"
  note st = zero_session_state [of smp v smp']
  have c: "isCalibrated ?s" and b: "backgroundNoise ?s = 0" and t: "energyThreshold ?s = 0"
    by (simp_all add: st)
  have e: "snd (process 0 x ?s) = [VolumeChange 0, Confidence NaN]"
    unfolding st
    by (simp add: process_def Let_def push_history_def new_vad_def historySize_def
        energySpeech_def energyConf_def energyConfDivisor_def avgEnergy_def js_sum_def)
  have later: "isCalibrated (vad_run ?s nxt) \<and>
      energyConfDivisor (push_history w (frame_zcr y) (vad_run ?s nxt)) = 0 \<and>
      energyConf (push_history w (frame_zcr y) (vad_run ?s nxt)) =
        (if 0 < avgEnergy (push_history w (frame_zcr y) (vad_run ?s nxt)) then Num 1
         else if avgEnergy (push_history w (frame_zcr y) (vad_run ?s nxt)) < 0
         then NegInf else NaN) \<and>
      energySpeech (push_history w (frame_zcr y) (vad_run ?s nxt)) =
        (0 < avgEnergy (push_history w (frame_zcr y) (vad_run ?s nxt)))" for nxt w y
  proof -
    have k: "isCalibrated (vad_run ?s nxt)" and z: "energyThreshold (vad_run ?s nxt) = 0"
      using calibrated_stays [OF c, of nxt] t by simp_all
    show ?thesis
      using k zero_threshold_frame [OF z, of w "frame_zcr y"] by simp
  qed
  show ?thesis using c b t e later by blast
qed

section \<open>The playback queue\<close>

lemma map_fst_set_status: "map fst (set_status i st as) = map fst as"
  by (auto simp: set_status_def nth_list_update intro!: nth_equalityI)

lemma length_set_status: "length (set_status i st as) = length as"
  by (simp add: set_status_def)

lemma nth_set_status:
  "j < length as \<Longrightarrow> snd (set_status i st as ! j) = (if j = i then st else snd (as ! j))"
  by (simp add: set_status_def nth_list_update)

lemma playing_append:
  "playing (m\<lparr>audios := audios m @ [(b, Playing)]\<rparr>) = playing m @ [length (audios m)]"
proof -
  have "filter (\<lambda>i. snd ((audios m @ [(b, Playing)]) ! i) = Playing) [0..<length (audios m)] =
      filter (\<lambda>i. snd (audios m ! i) = Playing) [0..<length (audios m)]"
    by (rule filter_cong) (simp_all add: nth_append)
  then show ?thesis by (simp add: playing_def)
qed

lemma playing_set_status:
  "st \<noteq> Playing \<Longrightarrow>
     playing (m\<lparr>audios := set_status i st (audios m)\<rparr>) = filter (\<lambda>j. j \<noteq> i) (playing m)"
proof -
  assume ne: "st \<noteq> Playing"
  have "filter (\<lambda>j. snd (set_status i st (audios m) ! j) = Playing) [0..<length (audios m)] =
      filter (\<lambda>j. j \<noteq> i \<and> snd (audios m ! j) = Playing) [0..<length (audios m)]"
    by (rule filter_cong) (use ne in \<open>auto simp: nth_set_status\<close>)
  then show ?thesis
    by (simp add: playing_def length_set_status conj_commute)
qed

lemma playing_fields:
  "playing (m\<lparr>queue := q\<rparr>) = playing m"
  "playing (m\<lparr>isPlaying := p\<rparr>) = playing m"
  "playing (m\<lparr>currentAudio := c\<rparr>) = playing m"
  by (simp_all add: playing_def)

lemma started_playNext: "started (playNext m) @ queue (playNext m) = started m @ queue m"
  by (simp add: playNext_def started_def split: list.split)

lemma started_add: "started (add b m) @ queue (add b m) = started m @ queue m @ [b]"
  using started_playNext [of "m\<lparr>queue := queue m @ [b]\<rparr>"]
  by (simp add: add_def Let_def started_def)

lemma started_completion:
  "started (completion sg i m) @ queue (completion sg i m) = started m @ queue m"
  using started_playNext [of "m\<lparr>audios := set_status i Finished (audios m)\<rparr>"]
  by (simp add: completion_def started_def map_fst_set_status)

lemma q_inv_playNext:
  "playing m = [] \<Longrightarrow> q_inv (playNext m)"
  using playing_append [of "m\<lparr>isPlaying := True, queue := tl (queue m), currentAudio := Some (length (audios m))\<rparr>" "hd (queue m)"]
  by (cases "queue m") (simp_all add: playNext_def q_inv_def playing_def)

lemma q_inv_add: "q_inv m \<Longrightarrow> q_inv (add b m)"
proof (cases "isPlaying m")
  case True
  assume "q_inv m"
  with True show ?thesis
    by (auto simp: add_def Let_def q_inv_def playing_def split: option.splits)
next
  case False
  assume "q_inv m"
  with False have "playing (m\<lparr>queue := queue m @ [b]\<rparr>) = []"
    by (simp add: q_inv_def playing_def)
  from q_inv_playNext [OF this] False show ?thesis
    by (simp add: add_def Let_def)
qed

lemma q_inv_completion:
  assumes "q_inv m" and "currentAudio m = Some i" and "i \<in> set (playing m)"
  shows "q_inv (completion sg i m)"
proof -
  from assms have p: "playing m = [i]"
    by (auto simp: q_inv_def split: if_splits)
  have len: "i < length (audios m)"
    using assms(3) by (auto simp: playing_def)
  have "playing (m\<lparr>audios := set_status i Finished (audios m)\<rparr>) = []"
    using playing_set_status [of Finished i m] p by simp
  from q_inv_playNext [OF this] len show ?thesis
    by (simp add: completion_def)
qed

lemma enqueued_Cons:
  "enqueued (Add b # ops) = b # enqueued ops"
  "enqueued (Completion sg i # ops) = enqueued ops"
  by (simp_all add: enqueued_def)

lemma live_session_inv:
  "q_inv m \<Longrightarrow> live_session m ops \<Longrightarrow>
     q_inv (q_run m ops) \<and>
     started (q_run m ops) @ queue (q_run m ops) = started m @ queue m @ enqueued ops"
proof (induction m ops rule: live_session.induct)
  case (1 m)
  then show ?case by (simp add: q_run_def enqueued_def)
next
  case (2 m b ops)
  from 2 have "q_inv (q_run (add b m) ops) \<and>
      started (q_run (add b m) ops) @ queue (q_run (add b m) ops) =
        started (add b m) @ queue (add b m) @ enqueued ops"
    by (simp add: q_inv_add)
  then show ?case
    using started_add [of b m] by (simp add: q_run_def enqueued_Cons)
next
  case (3 m sg i ops)
  from 3 have "q_inv (q_run (completion sg i m) ops) \<and>
      started (q_run (completion sg i m) ops) @ queue (q_run (completion sg i m) ops) =
        started (completion sg i m) @ queue (completion sg i m) @ enqueued ops"
    by (simp add: q_inv_completion)
  then show ?case
    using started_completion [of sg i m] by (simp add: q_run_def enqueued_Cons)
qed simp_all

lemma q_inv_one_playing: "q_inv m \<Longrightarrow> length (playing m) \<le> 1"
  by (auto simp: q_inv_def split: if_splits option.splits)

text \<open>
  C7. In every state that a new manager reaches by \<open>add\<close> calls and completion
  signals, each signal being for the element that is current and playing when it
  arrives, at most one element is playing, and the blobs whose playback has begun,
  in the order it began, followed by the blobs still queued, are exactly the blobs
  enqueued, in the order of the \<open>add\<close> calls.
\<close>

theorem one_playing_fifo:
  assumes "live_session new_manager ops"
  shows "length (playing (q_run new_manager ops)) \<le> 1 \<and>
         started (q_run new_manager ops) @ queue (q_run new_manager ops) = enqueued ops"
proof -
  have i: "q_inv (new_manager :: 'a buffer_manager)"
    by (simp add: q_inv_def new_manager_def playing_def)
  have e: "started (new_manager :: 'a buffer_manager) = []"
    "queue (new_manager :: 'a buffer_manager) = []"
    by (simp_all add: started_def new_manager_def)
  from live_session_inv [OF i assms]
  have "q_inv (q_run new_manager ops)"
    and "started (q_run new_manager ops) @ queue (q_run new_manager ops) = enqueued ops"
    by (simp_all add: e)
  then show ?thesis
    using q_inv_one_playing [of "q_run new_manager ops"] by simp
qed

theorem one_playing_fifo_witness:
  "live_session new_manager [Add (1::nat), Add 2, Completion Ended 0, Add 3, Completion Errored 1] \<and>
   playing (q_run new_manager [Add (1::nat), Add 2, Completion Ended 0, Add 3, Completion Errored 1]) = [2] \<and>
   started (q_run new_manager [Add (1::nat), Add 2, Completion Ended 0, Add 3, Completion Errored 1]) = [1, 2, 3]"
proof -
  have l: "live_session new_manager [Add (1::nat), Add 2, Completion Ended 0, Add 3, Completion Errored 1]"
    by code_simp
  have p: "playing (q_run new_manager [Add (1::nat), Add 2, Completion Ended 0, Add 3, Completion Errored 1]) = [2]"
    by code_simp
  have q: "queue (q_run new_manager [Add (1::nat), Add 2, Completion Ended 0, Add 3, Completion Errored 1]) = []"
    by code_simp
  have e: "enqueued [Add (1::nat), Add 2, Completion Ended 0, Add 3, Completion Errored 1] = [1, 2, 3]"
    by code_simp
  show ?thesis
    using one_playing_fifo [OF l] l p q e by simp
qed

text \<open>
  C6, as stated, at the session \<open>add 1, add 2, stop, add 3, add 4\<close> followed by a
  completion signal of element 0, which was playing blob 1 when \<open>stop\<close> was called:
  before the signal blob 3 is playing in element 1 and blob 4 is queued; the signal
  begins the playback of blob 4 in a new element 2, while element 1 still plays.
\<close>

theorem stale_completion_starts_playback:
  "currentAudio (q_run new_manager [Add (1::nat), Add 2]) = Some 0 \<and>
   playing (q_run new_manager [Add (1::nat), Add 2]) = [0] \<and>
   started (q_run new_manager [Add (1::nat), Add 2, Stop, Add 3, Add 4]) = [1, 3] \<and>
   playing (q_run new_manager [Add (1::nat), Add 2, Stop, Add 3, Add 4]) = [1] \<and>
   started (q_run new_manager [Add (1::nat), Add 2, Stop, Add 3, Add 4, Completion Errored 0]) = [1, 3, 4] \<and>
   playing (q_run new_manager [Add (1::nat), Add 2, Stop, Add 3, Add 4, Completion Errored 0]) = [1, 2]"
  by code_simp

text \<open>
  C6, amended. \<open>stop\<close> empties the queue, marks the manager idle, forgets the current
  element and pauses it, and begins no playback. A completion signal that arrives
  afterwards, for whatever element, begins no playback when no blob is waiting in
  the queue: directly after the \<open>stop\<close>, after the \<open>stop\<close> and one \<open>add\<close> (whose blob
  starts at once), and in any state with an empty queue.
\<close>

theorem stop_discards_queue:
  "queue (stop m) = [] \<and> \<not> isPlaying (stop m) \<and> currentAudio (stop m) = None \<and>
   started (stop m) = started m \<and>
   playing (stop m) = filter (\<lambda>j. Some j \<noteq> currentAudio m) (playing m) \<and>
   started (completion sg i (stop m)) = started m \<and>
   started (completion sg i (add b (stop m))) = started m @ [b] \<and>
   started (add b (stop m)) = started m @ [b] \<and>
   started (completion sg i (m\<lparr>queue := []\<rparr>)) = started m"
proof -
  have a: "queue (stop m) = [] \<and> \<not> isPlaying (stop m) \<and> currentAudio (stop m) = None"
    by (simp add: stop_def Let_def split: option.split)
  have b: "started (stop m) = started m"
    by (simp add: stop_def Let_def started_def map_fst_set_status split: option.split)
  have c: "playing (stop m) = filter (\<lambda>j. Some j \<noteq> currentAudio m) (playing m)"
  proof (cases "currentAudio m")
    case None
    then show ?thesis by (simp add: stop_def Let_def playing_def)
  next
    case (Some k)
    have "playing (stop m) = playing (m\<lparr>audios := set_status k Paused (audios m)\<rparr>)"
      using Some by (simp add: stop_def Let_def playing_def)
    also have "\<dots> = filter (\<lambda>j. j \<noteq> k) (playing m)"
      by (rule playing_set_status) simp
    finally show ?thesis by (simp add: Some)
  qed
  have e: "started (completion sg i n) = started n" if "queue n = []" for n :: "'a buffer_manager"
    using that by (simp add: completion_def playNext_def started_def map_fst_set_status)
  have d: "started (completion sg i (stop m)) = started m"
    using e [of "stop m"] a b by simp
  have f: "started (add b (stop m)) = started m @ [b] \<and> queue (add b (stop m)) = []"
    using a b by (simp add: add_def Let_def playNext_def started_def)
  have g: "started (completion sg i (add b (stop m))) = started m @ [b]"
    using e [of "add b (stop m)"] f by simp
  have h: "started (completion sg i (m\<lparr>queue := []\<rparr>)) = started m"
    using e [of "m\<lparr>queue := []\<rparr>"] by (simp add: started_def)
  show ?thesis using a b c d f g h by blast
qed

section \<open>The order of cleanupAll\<close>

lemma cleanupAnimationFrame_calls:
  "\<exists>r'. cleanupAnimationFrame h (Some i) r = Inr r' \<and>
        calls r' = calls r @ [CancelAnimationFrame i] \<and>
        activeAudioNodes r' = activeAudioNodes r \<and> activeMediaStreams r' = activeMediaStreams r \<and>
        activeAudioContexts r' = activeAudioContexts r \<and> closedContexts r' = closedContexts r"
  by (simp add: cleanupAnimationFrame_def try_catch_def and_then_def platform_call_def Let_def)

lemma forEach_frames:
  "\<exists>r'. forEach (\<lambda>i. cleanupAnimationFrame h (Some i)) xs r = Inr r' \<and>
        calls r' = calls r @ map CancelAnimationFrame xs \<and>
        activeAudioNodes r' = activeAudioNodes r \<and> activeMediaStreams r' = activeMediaStreams r \<and>
        activeAudioContexts r' = activeAudioContexts r \<and> closedContexts r' = closedContexts r"
proof (induction xs arbitrary: r)
  case Nil
  then show ?case by simp
next
  case (Cons x xs)
  from cleanupAnimationFrame_calls [of h x r] obtain r1 where
    1: "cleanupAnimationFrame h (Some x) r = Inr r1"
       "calls r1 = calls r @ [CancelAnimationFrame x]"
       "activeAudioNodes r1 = activeAudioNodes r" "activeMediaStreams r1 = activeMediaStreams r"
       "activeAudioContexts r1 = activeAudioContexts r" "closedContexts r1 = closedContexts r"
    by blast
  from Cons.IH [of r1] 1 show ?case
    by (simp add: and_then_def)
qed

lemma forEach_disconnect:
  "\<exists>r'. forEach (\<lambda>node r1. try_catch (platform_call h (Disconnect node) r1)) xs r = Inr r' \<and>
        calls r' = calls r @ map Disconnect xs \<and>
        activeMediaStreams r' = activeMediaStreams r \<and>
        activeAudioContexts r' = activeAudioContexts r \<and> closedContexts r' = closedContexts r"
proof (induction xs arbitrary: r)
  case Nil
  then show ?case by simp
next
  case (Cons x xs)
  have "\<exists>r1. try_catch (platform_call h (Disconnect x) r) = Inr r1 \<and>
      calls r1 = calls r @ [Disconnect x] \<and>
      activeMediaStreams r1 = activeMediaStreams r \<and>
      activeAudioContexts r1 = activeAudioContexts r \<and> closedContexts r1 = closedContexts r"
    by (simp add: try_catch_def platform_call_def Let_def)
  then obtain r1 where
    1: "try_catch (platform_call h (Disconnect x) r) = Inr r1"
       "calls r1 = calls r @ [Disconnect x]"
       "activeMediaStreams r1 = activeMediaStreams r"
       "activeAudioContexts r1 = activeAudioContexts r" "closedContexts r1 = closedContexts r"
    by blast
  from Cons.IH [of r1] 1 show ?case
    by (simp add: and_then_def)
qed

lemma cleanupAudioNodes_calls:
  "\<exists>r'. cleanupAudioNodes h r = Inr r' \<and>
        calls r' = calls r @ map Disconnect (activeAudioNodes r) \<and>
        activeMediaStreams r' = activeMediaStreams r \<and>
        activeAudioContexts r' = activeAudioContexts r \<and> closedContexts r' = closedContexts r"
proof -
  from forEach_disconnect [of h "activeAudioNodes r" r] obtain r1 where
    1: "forEach (\<lambda>node r1. try_catch (platform_call h (Disconnect node) r1)) (activeAudioNodes r) r = Inr r1"
       "calls r1 = calls r @ map Disconnect (activeAudioNodes r)"
       "activeMediaStreams r1 = activeMediaStreams r"
       "activeAudioContexts r1 = activeAudioContexts r" "closedContexts r1 = closedContexts r"
    by blast
  then show ?thesis
    by (simp add: cleanupAudioNodes_def and_then_def)
qed

lemma forEach_stop_tracks:
  "calls (returned (forEach (\<lambda>track. platform_call h (StopTrack st track)) ts r)) =
     calls r @ attempted h st ts \<and>
   activeAudioContexts (returned (forEach (\<lambda>track. platform_call h (StopTrack st track)) ts r)) =
     activeAudioContexts r \<and>
   closedContexts (returned (forEach (\<lambda>track. platform_call h (StopTrack st track)) ts r)) =
     closedContexts r \<and>
   activeMediaStreams (returned (forEach (\<lambda>track. platform_call h (StopTrack st track)) ts r)) =
     activeMediaStreams r \<and>
   activeAnimationFrames (returned (forEach (\<lambda>track. platform_call h (StopTrack st track)) ts r)) =
     activeAnimationFrames r \<and>
   activeAudioNodes (returned (forEach (\<lambda>track. platform_call h (StopTrack st track)) ts r)) =
     activeAudioNodes r"
proof (induction ts arbitrary: r)
  case Nil
  then show ?case by (simp add: returned_def)
next
  case (Cons t ts)
  show ?case
  proof (cases "raises h (StopTrack st t)")
    case True
    then show ?thesis
      by (simp add: and_then_def platform_call_def Let_def returned_def)
  next
    case False
    then show ?thesis
      using Cons.IH [of "r\<lparr>calls := calls r @ [StopTrack st t]\<rparr>"]
      by (simp add: and_then_def platform_call_def Let_def)
  qed
qed

lemma cleanupMediaStream_calls:
  "\<exists>r'. cleanupMediaStream h (Some st) r = Inr r' \<and>
        calls r' = calls r @ attempted h st (getTracks h st) \<and>
        activeAudioContexts r' = activeAudioContexts r \<and> closedContexts r' = closedContexts r"
proof -
  let ?body = "forEach (\<lambda>track. platform_call h (StopTrack st track)) (getTracks h st) r"
  note f = forEach_stop_tracks [of h st "getTracks h st" r]
  show ?thesis
  proof (cases ?body)
    case (Inl er)
    then show ?thesis using f
      by (cases er) (simp add: cleanupMediaStream_def and_then_def try_catch_def returned_def)
  next
    case (Inr r1)
    then show ?thesis using f
      by (simp add: cleanupMediaStream_def and_then_def try_catch_def returned_def)
  qed
qed

lemma forEach_streams:
  "\<exists>r'. forEach (\<lambda>st. cleanupMediaStream h (Some st)) xs r = Inr r' \<and>
        calls r' = calls r @ concat (map (\<lambda>st. attempted h st (getTracks h st)) xs) \<and>
        activeAudioContexts r' = activeAudioContexts r \<and> closedContexts r' = closedContexts r"
proof (induction xs arbitrary: r)
  case Nil
  then show ?case by simp
next
  case (Cons x xs)
  from cleanupMediaStream_calls [of h x r] obtain r1 where
    1: "cleanupMediaStream h (Some x) r = Inr r1"
       "calls r1 = calls r @ attempted h x (getTracks h x)"
       "activeAudioContexts r1 = activeAudioContexts r" "closedContexts r1 = closedContexts r"
    by blast
  from Cons.IH [of r1] 1 show ?case
    by (simp add: and_then_def)
qed

lemma cleanupSpeechSynthesis_calls:
  "\<exists>r'. cleanupSpeechSynthesis h r = Inr r' \<and>
        calls r' = calls r @ (if hasSpeechSynthesis h then [CancelSpeech] else []) \<and>
        activeAudioContexts r' = activeAudioContexts r \<and> closedContexts r' = closedContexts r"
  by (simp add: cleanupSpeechSynthesis_def try_catch_def platform_call_def Let_def)

lemma cleanupAudioContext_calls:
  "\<exists>r'. cleanupAudioContext h (Some c) r = Inr r' \<and>
        calls r' = calls r @ (if c \<in> set (closedContexts r) then [] else [CloseContext c]) \<and>
        set (closedContexts r') \<subseteq> insert c (set (closedContexts r)) \<and>
        set (closedContexts r) \<subseteq> set (closedContexts r')"
  by (auto simp: cleanupAudioContext_def try_catch_def and_then_def platform_call_def Let_def
      set_add_def)

lemma forEach_contexts:
  "distinct xs \<Longrightarrow>
   \<exists>r'. forEach (\<lambda>c. cleanupAudioContext h (Some c)) xs r = Inr r' \<and>
        calls r' = calls r @ map CloseContext (filter (\<lambda>c. c \<notin> set (closedContexts r)) xs)"
proof (induction xs arbitrary: r)
  case Nil
  then show ?case by simp
next
  case (Cons x xs)
  from cleanupAudioContext_calls [of h x r] obtain r1 where
    1: "cleanupAudioContext h (Some x) r = Inr r1"
       "calls r1 = calls r @ (if x \<in> set (closedContexts r) then [] else [CloseContext x])"
       "set (closedContexts r1) \<subseteq> insert x (set (closedContexts r))"
       "set (closedContexts r) \<subseteq> set (closedContexts r1)"
    by blast
  from Cons.prems have d: "distinct xs" and nx: "x \<notin> set xs" by simp_all
  have same: "filter (\<lambda>c. c \<notin> set (closedContexts r1)) xs =
      filter (\<lambda>c. c \<notin> set (closedContexts r)) xs"
    by (rule filter_cong) (use 1(3,4) nx in auto)
  from Cons.IH [OF d, of r1] obtain r2 where
    2: "forEach (\<lambda>c. cleanupAudioContext h (Some c)) xs r1 = Inr r2"
       "calls r2 = calls r1 @ map CloseContext (filter (\<lambda>c. c \<notin> set (closedContexts r1)) xs)"
    by blast
  have run: "forEach (\<lambda>c. cleanupAudioContext h (Some c)) (x # xs) r = Inr r2"
    using 1(1) 2(1) by (simp add: and_then_def)
  have "calls r2 = calls r @ map CloseContext (filter (\<lambda>c. c \<notin> set (closedContexts r)) (x # xs))"
    using 2(2) 1(2) same by simp
  with run show ?case by blast
qed

lemma sorted_constant:
  "(\<And>x. x \<in> set xs \<Longrightarrow> f x = (c::nat)) \<Longrightarrow> sorted (map f xs)"
  by (induction xs) simp_all

lemma kind_rank_attempted: "x \<in> set (attempted h st ts) \<Longrightarrow> kind_rank x = 2"
  by (induction ts) (auto split: if_splits)

lemma sorted_map_append:
  assumes "sorted (map f xs)" and "sorted (map f ys)"
    and "\<And>x. x \<in> set xs \<Longrightarrow> f x \<le> (c::nat)"
    and "\<And>y. y \<in> set ys \<Longrightarrow> c \<le> f y"
  shows "sorted (map f (xs @ ys))"
proof -
  have "f x \<le> f y" if "x \<in> set xs" "y \<in> set ys" for x y
    using assms(3) [OF that(1)] assms(4) [OF that(2)] by simp
  then show ?thesis using assms(1,2) by (simp add: sorted_append)
qed

lemma sorted_release_order: "sorted (map kind_rank (release_order_spec h r))"
proof -
  let ?a = "map CancelAnimationFrame (activeAnimationFrames r)"
  let ?b = "map Disconnect (activeAudioNodes r)"
  let ?c = "concat (map (\<lambda>st. attempted h st (getTracks h st)) (activeMediaStreams r))"
  let ?d = "if hasSpeechSynthesis h then [CancelSpeech] else []"
  let ?e = "map CloseContext (filter (\<lambda>c. c \<notin> set (closedContexts r)) (activeAudioContexts r))"
  have a: "kind_rank x = 0" if "x \<in> set ?a" for x using that by auto
  have b: "kind_rank x = 1" if "x \<in> set ?b" for x using that by auto
  have c: "kind_rank x = 2" if "x \<in> set ?c" for x using that by (auto dest: kind_rank_attempted)
  have d: "kind_rank x = 3" if "x \<in> set ?d" for x using that by (auto split: if_splits)
  have e: "kind_rank x = 4" if "x \<in> set ?e" for x using that by auto
  have sa: "sorted (map kind_rank ?a)" by (rule sorted_constant [OF a])
  have sb: "sorted (map kind_rank ?b)" by (rule sorted_constant [OF b])
  have sc: "sorted (map kind_rank ?c)" by (rule sorted_constant [OF c])
  have sd: "sorted (map kind_rank ?d)" by (rule sorted_constant [OF d])
  have se: "sorted (map kind_rank ?e)" by (rule sorted_constant [OF e])
  have de: "sorted (map kind_rank (?d @ ?e))"
  proof (rule sorted_map_append [where c = 3, OF sd se])
    fix x assume "x \<in> set ?d"
    then show "kind_rank x \<le> 3" using d [of x] by simp
  next
    fix y assume "y \<in> set (?e)"
    then show "3 \<le> kind_rank y" using e [of y] by simp
  qed
  have r_de: "3 \<le> kind_rank x" if "x \<in> set (?d @ ?e)" for x
  proof -
    from that have "x \<in> set ?d \<or> x \<in> set ?e" by (simp only: set_append Un_iff)
    then show ?thesis using d [of x] e [of x] by linarith
  qed
  have cde: "sorted (map kind_rank (?c @ ?d @ ?e))"
  proof (rule sorted_map_append [where c = 2, OF sc de])
    fix x assume "x \<in> set ?c"
    then show "kind_rank x \<le> 2" using c [of x] by simp
  next
    fix y assume "y \<in> set (?d @ ?e)"
    then show "2 \<le> kind_rank y" using r_de [of y] by simp
  qed
  have r_cde: "2 \<le> kind_rank x" if "x \<in> set (?c @ ?d @ ?e)" for x
  proof -
    from that have "x \<in> set ?c \<or> x \<in> set (?d @ ?e)" by (simp only: set_append Un_iff)
    then show ?thesis using c [of x] r_de [of x] by linarith
  qed
  have bcde: "sorted (map kind_rank (?b @ ?c @ ?d @ ?e))"
  proof (rule sorted_map_append [where c = 1, OF sb cde])
    fix x assume "x \<in> set ?b"
    then show "kind_rank x \<le> 1" using b [of x] by simp
  next
    fix y assume "y \<in> set (?c @ ?d @ ?e)"
    then show "1 \<le> kind_rank y" using r_cde [of y] by simp
  qed
  have r_bcde: "1 \<le> kind_rank x" if "x \<in> set (?b @ ?c @ ?d @ ?e)" for x
  proof -
    from that have "x \<in> set ?b \<or> x \<in> set (?c @ ?d @ ?e)" by (simp only: set_append Un_iff)
    then show ?thesis using b [of x] r_cde [of x] by linarith
  qed
  have abcde: "sorted (map kind_rank (?a @ ?b @ ?c @ ?d @ ?e))"
  proof (rule sorted_map_append [where c = 0, OF sa bcde])
    fix x assume "x \<in> set ?a"
    then show "kind_rank x \<le> 0" using a [of x] by simp
  next
    fix y assume "y \<in> set (?b @ ?c @ ?d @ ?e)"
    then show "0 \<le> kind_rank y" using r_bcde [of y] by simp
  qed
  from abcde show ?thesis by (simp only: release_order_spec_def)
qed

text \<open>
  C8. For every registry (each Set without duplicates) and every behaviour of the
  browser, \<open>cleanupAll\<close> returns normally and the platform calls it makes are, in
  this order: \<open>cancelAnimationFrame\<close> for every tracked frame id, \<open>disconnect\<close> for
  every tracked audio node, \<open>stop\<close> for the tracks of every tracked media stream
  (for each stream up to the first call that raises, if one does),
  \<open>speechSynthesis.cancel\<close>, and \<open>close\<close> for every tracked audio context that is
  not closed already. So a call for a resource of an earlier kind comes strictly
  before every call for a resource of a later kind, and the contexts come last.
\<close>

theorem cleanupAll_order:
  assumes "sets_ok r"
  shows "\<exists>r'. cleanupAll h r = Inr r' \<and>
           calls r' = calls r @ release_order_spec h r \<and>
           (\<forall>i j. i < length (release_order_spec h r) \<longrightarrow> j < length (release_order_spec h r) \<longrightarrow>
                  kind_rank (release_order_spec h r ! i) < kind_rank (release_order_spec h r ! j) \<longrightarrow>
                  i < j)"
proof -
  from forEach_frames [of h "activeAnimationFrames r" r] obtain r1 where
    1: "forEach (\<lambda>i. cleanupAnimationFrame h (Some i)) (activeAnimationFrames r) r = Inr r1"
       "calls r1 = calls r @ map CancelAnimationFrame (activeAnimationFrames r)"
       "activeAudioNodes r1 = activeAudioNodes r" "activeMediaStreams r1 = activeMediaStreams r"
       "activeAudioContexts r1 = activeAudioContexts r" "closedContexts r1 = closedContexts r"
    by blast
  from cleanupAudioNodes_calls [of h r1] obtain r2 where
    2: "cleanupAudioNodes h r1 = Inr r2"
       "calls r2 = calls r1 @ map Disconnect (activeAudioNodes r1)"
       "activeMediaStreams r2 = activeMediaStreams r1"
       "activeAudioContexts r2 = activeAudioContexts r1" "closedContexts r2 = closedContexts r1"
    by blast
  from forEach_streams [of h "activeMediaStreams r2" r2] obtain r3 where
    3: "forEach (\<lambda>st. cleanupMediaStream h (Some st)) (activeMediaStreams r2) r2 = Inr r3"
       "calls r3 = calls r2 @ concat (map (\<lambda>st. attempted h st (getTracks h st)) (activeMediaStreams r2))"
       "activeAudioContexts r3 = activeAudioContexts r2" "closedContexts r3 = closedContexts r2"
    by blast
  from cleanupSpeechSynthesis_calls [of h r3] obtain r4 where
    4: "cleanupSpeechSynthesis h r3 = Inr r4"
       "calls r4 = calls r3 @ (if hasSpeechSynthesis h then [CancelSpeech] else [])"
       "activeAudioContexts r4 = activeAudioContexts r3" "closedContexts r4 = closedContexts r3"
    by blast
  have d: "distinct (activeAudioContexts r4)"
    using assms 1 2 3 4 by (simp add: sets_ok_def)
  from forEach_contexts [OF d, of h r4] obtain r5 where
    5: "forEach (\<lambda>c. cleanupAudioContext h (Some c)) (activeAudioContexts r4) r4 = Inr r5"
       "calls r5 = calls r4 @
          map CloseContext (filter (\<lambda>c. c \<notin> set (closedContexts r4)) (activeAudioContexts r4))"
    by blast
  have run: "cleanupAll h r = Inr r5"
    using 1(1) 2(1) 3(1) 4(1) 5(1) by (simp add: cleanupAll_def and_then_def)
  have cs: "calls r5 = calls r @ release_order_spec h r"
    using 1 2 3 4 5(2) by (simp add: release_order_spec_def)
  have ord: "i < j" if "i < length (release_order_spec h r)" "j < length (release_order_spec h r)"
      "kind_rank (release_order_spec h r ! i) < kind_rank (release_order_spec h r ! j)" for i j
  proof (rule ccontr)
    assume "\<not> i < j"
    then have "j \<le> i" by simp
    with sorted_release_order [of h r] that(1)
    have "map kind_rank (release_order_spec h r) ! j \<le> map kind_rank (release_order_spec h r) ! i"
      by (intro sorted_nth_mono) simp_all
    with that show False by simp
  qed
  show ?thesis using run cs ord by blast
qed

theorem cleanupAll_order_witness:
  "sets_ok session_resources \<and>
   calls (returned (cleanupAll quiet_host session_resources)) =
     [CancelAnimationFrame 7, CancelAnimationFrame 8, Disconnect 3, StopTrack 1 10,
      StopTrack 1 11, CancelSpeech, CloseContext 5] \<and>
   kind_rank (release_order_spec quiet_host session_resources ! 1) <
     kind_rank (release_order_spec quiet_host session_resources ! 2)"
proof -
  have ok: "sets_ok session_resources" by code_simp
  have ord: "release_order_spec quiet_host session_resources =
     [CancelAnimationFrame 7, CancelAnimationFrame 8, Disconnect 3, StopTrack 1 10,
      StopTrack 1 11, CancelSpeech, CloseContext 5]"
    by code_simp
  have c0: "calls session_resources = []" by code_simp
  from cleanupAll_order [OF ok, of quiet_host] obtain r' where
    r: "cleanupAll quiet_host session_resources = Inr r'"
       "calls r' = calls session_resources @ release_order_spec quiet_host session_resources"
    by blast
  show ?thesis using ok r ord c0 by (simp add: returned_def)
qed

section \<open>Releasing twice\<close>

lemma distinct_set_delete: "distinct xs \<Longrightarrow> distinct (set_delete x xs)"
  by (simp add: set_delete_def)

lemma set_delete_idem: "set_delete x (set_delete x xs) = set_delete x xs"
  by (simp add: set_delete_def)

lemma set_delete_absent: "x \<notin> set xs \<Longrightarrow> set_delete x xs = xs"
  by (induction xs) (auto simp: set_delete_def)

lemma length_set_delete_le: "length (set_delete x xs) \<le> length xs"
  by (simp add: set_delete_def)

lemma length_set_delete_ge: "distinct xs \<Longrightarrow> length xs \<le> Suc (length (set_delete x xs))"
proof (induction xs)
  case Nil
  then show ?case by (simp add: set_delete_def)
next
  case (Cons y ys)
  show ?case
  proof (cases "y = x")
    case True
    with Cons.prems have "x \<notin> set ys" by simp
    then have "set_delete x ys = ys" by (rule set_delete_absent)
    with True show ?thesis by (simp add: set_delete_def)
  next
    case False
    with Cons show ?thesis by (simp add: set_delete_def)
  qed
qed

lemma stats_tracked: "sets_ok r \<Longrightarrow> getResourceStats r = tracked_counts r"
  by (simp add: sets_ok_def getResourceStats_def tracked_counts_def distinct_card)

lemma stats_nonneg: "counts_nonneg (getResourceStats r)"
  by (simp add: counts_nonneg_def getResourceStats_def)

lemma forEach_stop_tracks_return:
  "is_return (forEach (\<lambda>track. platform_call h (StopTrack st track)) ts r) =
     list_all (\<lambda>t. \<not> raises h (StopTrack st t)) ts"
proof (induction ts arbitrary: r)
  case Nil
  then show ?case by (simp add: is_return_def)
next
  case (Cons t ts)
  show ?case
  proof (cases "raises h (StopTrack st t)")
    case True
    then show ?thesis
      by (simp add: and_then_def platform_call_def Let_def is_return_def)
  next
    case False
    then show ?thesis
      using Cons.IH [of "r\<lparr>calls := calls r @ [StopTrack st t]\<rparr>"]
      by (simp add: and_then_def platform_call_def Let_def)
  qed
qed

lemma cleanupMediaStream_effect:
  "\<exists>r'. cleanupMediaStream h (Some x) r = Inr r' \<and>
        activeAudioContexts r' = activeAudioContexts r \<and>
        activeAnimationFrames r' = activeAnimationFrames r \<and>
        activeAudioNodes r' = activeAudioNodes r \<and>
        activeMediaStreams r' =
          (if list_all (\<lambda>t. \<not> raises h (StopTrack x t)) (getTracks h x)
           then set_delete x (activeMediaStreams r) else activeMediaStreams r)"
proof -
  let ?body = "forEach (\<lambda>track. platform_call h (StopTrack x track)) (getTracks h x) r"
  note f = forEach_stop_tracks [of h x "getTracks h x" r]
  note g = forEach_stop_tracks_return [of h x "getTracks h x" r]
  show ?thesis
  proof (cases ?body)
    case (Inl er)
    then show ?thesis using f g
      by (cases er) (simp add: cleanupMediaStream_def and_then_def try_catch_def returned_def is_return_def)
  next
    case (Inr r1)
    then show ?thesis using f g
      by (simp add: cleanupMediaStream_def and_then_def try_catch_def returned_def is_return_def)
  qed
qed

lemma cleanupAnimationFrame_effect:
  "\<exists>r'. cleanupAnimationFrame h (Some x) r = Inr r' \<and>
        activeAudioContexts r' = activeAudioContexts r \<and>
        activeMediaStreams r' = activeMediaStreams r \<and>
        activeAudioNodes r' = activeAudioNodes r \<and>
        activeAnimationFrames r' =
          (if raises h (CancelAnimationFrame x) then activeAnimationFrames r
           else set_delete x (activeAnimationFrames r))"
  by (simp add: cleanupAnimationFrame_def try_catch_def and_then_def platform_call_def Let_def)

lemma cleanupAudioContext_effect:
  "\<exists>r'. cleanupAudioContext h (Some x) r = Inr r' \<and>
        activeAnimationFrames r' = activeAnimationFrames r \<and>
        activeMediaStreams r' = activeMediaStreams r \<and>
        activeAudioNodes r' = activeAudioNodes r \<and>
        activeAudioContexts r' =
          (if x \<in> set (closedContexts r) \<or> raises h (CloseContext x) then activeAudioContexts r
           else set_delete x (activeAudioContexts r)) \<and>
        (x \<in> set (closedContexts r') \<longleftrightarrow>
           x \<in> set (closedContexts r) \<or> \<not> raises h (CloseContext x))"
  by (auto simp: cleanupAudioContext_def try_catch_def and_then_def platform_call_def Let_def
      set_add_def)

lemma release_twiceI:
  assumes ok: "sets_ok r"
    and 1: "f r = Inr r1" and 2: "f r1 = Inr r2"
    and same: "activeAudioContexts r2 = activeAudioContexts r1"
      "activeMediaStreams r2 = activeMediaStreams r1"
      "activeAnimationFrames r2 = activeAnimationFrames r1"
      "activeAudioNodes r2 = activeAudioNodes r1"
    and nodes: "activeAudioNodes r1 = activeAudioNodes r"
    and one: "(activeAudioContexts r1 = activeAudioContexts r \<or>
               activeAudioContexts r1 = set_delete x (activeAudioContexts r)) \<and>
              activeMediaStreams r1 = activeMediaStreams r \<and>
              activeAnimationFrames r1 = activeAnimationFrames r \<or>
              activeAudioContexts r1 = activeAudioContexts r \<and>
              (activeMediaStreams r1 = activeMediaStreams r \<or>
               activeMediaStreams r1 = set_delete x (activeMediaStreams r)) \<and>
              activeAnimationFrames r1 = activeAnimationFrames r \<or>
              activeAudioContexts r1 = activeAudioContexts r \<and>
              activeMediaStreams r1 = activeMediaStreams r \<and>
              (activeAnimationFrames r1 = activeAnimationFrames r \<or>
               activeAnimationFrames r1 = set_delete x (activeAnimationFrames r))"
  shows "release_twice f r"
proof -
  have ok1: "sets_ok r1"
    using ok nodes one by (auto simp: sets_ok_def distinct_set_delete)
  have ok2: "sets_ok r2"
    using ok1 same by (simp add: sets_ok_def)
  have eq: "getResourceStats r2 = getResourceStats r1"
    using same by (simp add: getResourceStats_def)
  have d: "distinct (activeAudioContexts r)" "distinct (activeMediaStreams r)"
    "distinct (activeAnimationFrames r)"
    using ok by (simp_all add: sets_ok_def)
  have lo: "total (getResourceStats r) - 1 \<le> total (getResourceStats r1)"
    using one nodes length_set_delete_ge [OF d(1), of x] length_set_delete_ge [OF d(2), of x]
      length_set_delete_ge [OF d(3), of x]
    by (auto simp: total_def getResourceStats_def)
  have hi: "total (getResourceStats r1) \<le> total (getResourceStats r)"
    using one nodes length_set_delete_le [of x "activeAudioContexts r"]
      length_set_delete_le [of x "activeMediaStreams r"]
      length_set_delete_le [of x "activeAnimationFrames r"]
    by (auto simp: total_def getResourceStats_def)
  show ?thesis
    using 1 2 stats_tracked [OF ok1] stats_tracked [OF ok2] eq stats_nonneg [of r2] lo hi
    by (simp add: release_twice_def)
qed

lemma release_twice_stream:
  assumes "sets_ok r"
  shows "release_twice (cleanupMediaStream h (Some x)) r"
proof -
  from cleanupMediaStream_effect [of h x r] obtain r1 where
    1: "cleanupMediaStream h (Some x) r = Inr r1"
       "activeAudioContexts r1 = activeAudioContexts r"
       "activeAnimationFrames r1 = activeAnimationFrames r"
       "activeAudioNodes r1 = activeAudioNodes r"
       "activeMediaStreams r1 =
          (if list_all (\<lambda>t. \<not> raises h (StopTrack x t)) (getTracks h x)
           then set_delete x (activeMediaStreams r) else activeMediaStreams r)"
    by blast
  from cleanupMediaStream_effect [of h x r1] obtain r2 where
    2: "cleanupMediaStream h (Some x) r1 = Inr r2"
       "activeAudioContexts r2 = activeAudioContexts r1"
       "activeAnimationFrames r2 = activeAnimationFrames r1"
       "activeAudioNodes r2 = activeAudioNodes r1"
       "activeMediaStreams r2 =
          (if list_all (\<lambda>t. \<not> raises h (StopTrack x t)) (getTracks h x)
           then set_delete x (activeMediaStreams r1) else activeMediaStreams r1)"
    by blast
  have s: "activeMediaStreams r2 = activeMediaStreams r1"
    using 1(5) 2(5) by (simp add: set_delete_idem)
  show ?thesis
    by (rule release_twiceI [OF assms 1(1) 2(1) 2(2) s 2(3) 2(4) 1(4), of x])
       (use 1 in auto)
qed

lemma release_twice_frame:
  assumes "sets_ok r"
  shows "release_twice (cleanupAnimationFrame h (Some x)) r"
proof -
  from cleanupAnimationFrame_effect [of h x r] obtain r1 where
    1: "cleanupAnimationFrame h (Some x) r = Inr r1"
       "activeAudioContexts r1 = activeAudioContexts r"
       "activeMediaStreams r1 = activeMediaStreams r"
       "activeAudioNodes r1 = activeAudioNodes r"
       "activeAnimationFrames r1 =
          (if raises h (CancelAnimationFrame x) then activeAnimationFrames r
           else set_delete x (activeAnimationFrames r))"
    by blast
  from cleanupAnimationFrame_effect [of h x r1] obtain r2 where
    2: "cleanupAnimationFrame h (Some x) r1 = Inr r2"
       "activeAudioContexts r2 = activeAudioContexts r1"
       "activeMediaStreams r2 = activeMediaStreams r1"
       "activeAudioNodes r2 = activeAudioNodes r1"
       "activeAnimationFrames r2 =
          (if raises h (CancelAnimationFrame x) then activeAnimationFrames r1
           else set_delete x (activeAnimationFrames r1))"
    by blast
  have s: "activeAnimationFrames r2 = activeAnimationFrames r1"
    using 1(5) 2(5) by (simp add: set_delete_idem)
  show ?thesis
    by (rule release_twiceI [OF assms 1(1) 2(1) 2(2) 2(3) s 2(4) 1(4), of x])
       (use 1 in auto)
qed

lemma release_twice_context:
  assumes "sets_ok r"
  shows "release_twice (cleanupAudioContext h (Some x)) r"
proof -
  from cleanupAudioContext_effect [of h x r] obtain r1 where
    1: "cleanupAudioContext h (Some x) r = Inr r1"
       "activeAnimationFrames r1 = activeAnimationFrames r"
       "activeMediaStreams r1 = activeMediaStreams r"
       "activeAudioNodes r1 = activeAudioNodes r"
       "activeAudioContexts r1 =
          (if x \<in> set (closedContexts r) \<or> raises h (CloseContext x) then activeAudioContexts r
           else set_delete x (activeAudioContexts r))"
       "x \<in> set (closedContexts r1) \<longleftrightarrow>
           x \<in> set (closedContexts r) \<or> \<not> raises h (CloseContext x)"
    by blast
  from cleanupAudioContext_effect [of h x r1] obtain r2 where
    2: "cleanupAudioContext h (Some x) r1 = Inr r2"
       "activeAnimationFrames r2 = activeAnimationFrames r1"
       "activeMediaStreams r2 = activeMediaStreams r1"
       "activeAudioNodes r2 = activeAudioNodes r1"
       "activeAudioContexts r2 =
          (if x \<in> set (closedContexts r1) \<or> raises h (CloseContext x) then activeAudioContexts r1
           else set_delete x (activeAudioContexts r1))"
    by blast
  have s: "activeAudioContexts r2 = activeAudioContexts r1"
    using 1(6) 2(5) by auto
  show ?thesis
    by (rule release_twiceI [OF assms 1(1) 2(1) s 2(3) 2(2) 2(4) 1(4), of x])
       (use 1 in auto)
qed

text \<open>
  C9. For every registry (each Set without duplicates), every behaviour of the
  browser and every resource \<open>x\<close>: releasing \<open>x\<close> twice with
  \<open>cleanupMediaStream\<close>, \<open>cleanupAnimationFrame\<close> or \<open>cleanupAudioContext\<close> raises
  nothing, after each call every count of \<open>getResourceStats\<close> is the number of
  tracked resources of its kind and is not negative, the second call changes no
  count, and the counts drop by at most one in total. Releasing a resource that is
  not tracked raises nothing and changes no count.
\<close>

theorem release_is_idempotent:
  assumes "sets_ok r"
  shows "release_twice (cleanupMediaStream h (Some x)) r \<and>
         release_twice (cleanupAnimationFrame h (Some x)) r \<and>
         release_twice (cleanupAudioContext h (Some x)) r \<and>
         getResourceStats r = tracked_counts r \<and>
         (x \<notin> set (activeMediaStreams r) \<longrightarrow>
            is_return (cleanupMediaStream h (Some x) r) \<and>
            getResourceStats (returned (cleanupMediaStream h (Some x) r)) = getResourceStats r) \<and>
         (x \<notin> set (activeAnimationFrames r) \<longrightarrow>
            is_return (cleanupAnimationFrame h (Some x) r) \<and>
            getResourceStats (returned (cleanupAnimationFrame h (Some x) r)) = getResourceStats r) \<and>
         (x \<notin> set (activeAudioContexts r) \<longrightarrow>
            is_return (cleanupAudioContext h (Some x) r) \<and>
            getResourceStats (returned (cleanupAudioContext h (Some x) r)) = getResourceStats r)"
proof -
  have s: "x \<notin> set (activeMediaStreams r) \<longrightarrow>
            is_return (cleanupMediaStream h (Some x) r) \<and>
            getResourceStats (returned (cleanupMediaStream h (Some x) r)) = getResourceStats r"
    using cleanupMediaStream_effect [of h x r]
    by (auto simp: is_return_def returned_def getResourceStats_def set_delete_absent)
  have f: "x \<notin> set (activeAnimationFrames r) \<longrightarrow>
            is_return (cleanupAnimationFrame h (Some x) r) \<and>
            getResourceStats (returned (cleanupAnimationFrame h (Some x) r)) = getResourceStats r"
    using cleanupAnimationFrame_effect [of h x r]
    by (auto simp: is_return_def returned_def getResourceStats_def set_delete_absent)
  have c: "x \<notin> set (activeAudioContexts r) \<longrightarrow>
            is_return (cleanupAudioContext h (Some x) r) \<and>
            getResourceStats (returned (cleanupAudioContext h (Some x) r)) = getResourceStats r"
    using cleanupAudioContext_effect [of h x r]
    by (auto simp: is_return_def returned_def getResourceStats_def set_delete_absent)
  show ?thesis
    using release_twice_stream [OF assms, of h x] release_twice_frame [OF assms, of h x]
      release_twice_context [OF assms, of h x] stats_tracked [OF assms] s f c
    by blast
qed

theorem release_is_idempotent_witness:
  "sets_ok session_resources \<and>
   9 \<notin> set (activeMediaStreams session_resources) \<and>
   9 \<notin> set (activeAnimationFrames session_resources) \<and>
   9 \<notin> set (activeAudioContexts session_resources) \<and>
   getResourceStats (returned (cleanupMediaStream quiet_host (Some 9) session_resources)) =
     \<lparr>audioContexts = 2, mediaStreams = 1, animationFrames = 2, audioNodes = 1\<rparr> \<and>
   release_twice (cleanupMediaStream quiet_host (Some 1)) session_resources \<and>
   getResourceStats (returned (cleanupMediaStream quiet_host (Some 1)
     (returned (cleanupMediaStream quiet_host (Some 1) session_resources)))) =
     \<lparr>audioContexts = 2, mediaStreams = 0, animationFrames = 2, audioNodes = 1\<rparr>"
proof -
  have ok: "sets_ok session_resources" by code_simp
  have a: "9 \<notin> set (activeMediaStreams session_resources)"
    "9 \<notin> set (activeAnimationFrames session_resources)"
    "9 \<notin> set (activeAudioContexts session_resources)"
    by code_simp+
  have s: "getResourceStats session_resources =
     \<lparr>audioContexts = 2, mediaStreams = 1, animationFrames = 2, audioNodes = 1\<rparr>"
    by code_simp
  have t: "getResourceStats (returned (cleanupMediaStream quiet_host (Some 1)
     (returned (cleanupMediaStream quiet_host (Some 1) session_resources)))) =
     \<lparr>audioContexts = 2, mediaStreams = 0, animationFrames = 2, audioNodes = 1\<rparr>"
    by code_simp
  show ?thesis
    using release_is_idempotent [OF ok, of quiet_host 9]
      release_is_idempotent [OF ok, of quiet_host 1] ok a s t
    by simp
qed

end
